theory Spec2Isabelle
  imports Main
begin

section \<open>The virtual time scheduler of RxJS\<close>

text \<open>
  The development embeds \<^verbatim>\<open>src/core/concurrency/virtualtimescheduler.js\<close>.
  A time value is any type \<open>'t\<close>, a relative time any type \<open>'r\<close>; the comparer handed to the
  constructor is a function \<open>'t \<Rightarrow> 't \<Rightarrow> int\<close> and is passed to every operation that reads
  \<^verbatim>\<open>this.comparer\<close>. The abstract method \<^verbatim>\<open>add\<close> of the scheduler is a parameter too.

  A scheduled item carries the state and the user action it was scheduled with as one
  payload \<open>'p\<close>. What the payloads do when they run is the parameter
  \<open>act :: 'p \<Rightarrow> scheduler \<Rightarrow> scheduler\<close>: the user action as a transformer of the scheduler
  on which it runs (it may schedule, cancel, stop, or change the rest of the heap, the field
  \<open>world\<close>). User actions are taken to return normally.

  The run loop of \<^verbatim>\<open>start\<close> and the one of \<^verbatim>\<open>advanceTo\<close> may run forever, so they are
  partial functions into \<open>option\<close>: \<open>None\<close> is a call that does not return. Next to the
  final state they return the list of the invocations they made, each with the item
  invoked and the clock its action found.
\<close>

datatype error = ArgumentOutOfRange

subsection \<open>Scheduled items and the priority queue\<close>

text \<open>
  Modelled from the spec: the classes ScheduledItem and PriorityQueue are used by the
  file and are not part of it. An item binds a due time, a payload and a cancellation flag;
  its identity is the insertion sequence number it was given when it was enqueued. The
  queue is the list of the pending items; its minimum is the item with the smallest pair
  (due time, insertion sequence). The number the constructor of the scheduler passes to
  the queue is an initial capacity; the queue of the model has no bound.
\<close>

record ('t, 'p) scheduled_item =
  item_id :: nat
  dueTime :: 't
  payload :: 'p
  isCancelled :: bool

type_synonym ('t, 'p) priority_queue = "('t, 'p) scheduled_item list"

type_synonym ('t, 'p) invocation = "('t, 'p) scheduled_item \<times> 't"

definition compareTo ::
  "('t \<Rightarrow> 't \<Rightarrow> int) \<Rightarrow> ('t, 'p) scheduled_item \<Rightarrow> ('t, 'p) scheduled_item \<Rightarrow> int" where
  "compareTo comparer x y =
     (let c = comparer (dueTime x) (dueTime y)
      in if c = 0 then int (item_id x) - int (item_id y) else c)"

definition isHigherPriority ::
  "('t \<Rightarrow> 't \<Rightarrow> int) \<Rightarrow> ('t, 'p) scheduled_item \<Rightarrow> ('t, 'p) scheduled_item \<Rightarrow> bool" where
  "isHigherPriority comparer x y \<longleftrightarrow> compareTo comparer x y < 0"

fun peek_from ::
  "('t \<Rightarrow> 't \<Rightarrow> int) \<Rightarrow> ('t, 'p) scheduled_item \<Rightarrow> ('t, 'p) priority_queue
     \<Rightarrow> ('t, 'p) scheduled_item" where
  "peek_from comparer m [] = m"
| "peek_from comparer m (x # xs) =
     peek_from comparer (if isHigherPriority comparer x m then x else m) xs"

definition peek ::
  "('t \<Rightarrow> 't \<Rightarrow> int) \<Rightarrow> ('t, 'p) priority_queue \<Rightarrow> ('t, 'p) scheduled_item option" where
  "peek comparer q = (case q of [] \<Rightarrow> None | x # xs \<Rightarrow> Some (peek_from comparer x xs))"

definition remove ::
  "('t, 'p) scheduled_item \<Rightarrow> ('t, 'p) priority_queue \<Rightarrow> ('t, 'p) priority_queue" where
  "remove si q = filter (\<lambda>x. item_id x \<noteq> item_id si) q"

definition dequeue ::
  "('t \<Rightarrow> 't \<Rightarrow> int) \<Rightarrow> ('t, 'p) priority_queue \<Rightarrow> ('t, 'p) priority_queue" where
  "dequeue comparer q = (case peek comparer q of None \<Rightarrow> q | Some m \<Rightarrow> remove m q)"

definition enqueue ::
  "('t, 'p) scheduled_item \<Rightarrow> ('t, 'p) priority_queue \<Rightarrow> ('t, 'p) priority_queue" where
  "enqueue si q = q @ [si]"

subsection \<open>The scheduler\<close>

text \<open>
  The fields \<open>clock\<close>, \<open>isEnabled\<close> and \<open>queue\<close> are those the constructor sets.
  \<open>nextSequence\<close> is the insertion sequence the queue gives to the next item, and
  \<open>world\<close> stands for everything outside the scheduler that user actions read and write;
  the constructor of the model takes its initial value.
\<close>

record ('t, 'p, 'w) scheduler =
  clock :: 't
  isEnabled :: bool
  queue :: "('t, 'p) priority_queue"
  nextSequence :: nat
  world :: 'w

definition VirtualTimeScheduler :: "'t \<Rightarrow> 'w \<Rightarrow> ('t, 'p, 'w) scheduler" where
  "VirtualTimeScheduler initialClock w =
     \<lparr>clock = initialClock, isEnabled = False, queue = [], nextSequence = 0, world = w\<rparr>"

text \<open>
  \<^verbatim>\<open>scheduleAbsoluteWithState\<close> builds the item, enqueues it and returns its disposable. The
  disposable is represented by the identity of the item.
\<close>

definition scheduleAbsoluteWithState ::
  "'p \<Rightarrow> 't \<Rightarrow> ('t, 'p, 'w) scheduler \<Rightarrow> nat \<times> ('t, 'p, 'w) scheduler" where
  "scheduleAbsoluteWithState state due s =
     (let si = \<lparr>item_id = nextSequence s, dueTime = due, payload = state, isCancelled = False\<rparr>
      in (item_id si,
          s\<lparr>queue := enqueue si (queue s), nextSequence := Suc (nextSequence s)\<rparr>))"

definition scheduleRelativeWithState ::
  "('t \<Rightarrow> 'r \<Rightarrow> 't) \<Rightarrow> 'p \<Rightarrow> 'r \<Rightarrow> ('t, 'p, 'w) scheduler \<Rightarrow> nat \<times> ('t, 'p, 'w) scheduler" where
  "scheduleRelativeWithState add state due s =
     (let runAt = add (clock s) due in scheduleAbsoluteWithState state runAt s)"

text \<open>
  The convenience forms. \<^verbatim>\<open>scheduleNow\<close> uses the clock as the due time. The methods
  \<^verbatim>\<open>scheduleRelative\<close> and \<^verbatim>\<open>scheduleAbsolute\<close> of the prototype take a bare action: the
  payload of the item is that action, which \<^verbatim>\<open>invokeAction\<close> calls.
\<close>

definition scheduleNow :: "'p \<Rightarrow> ('t, 'p, 'w) scheduler \<Rightarrow> nat \<times> ('t, 'p, 'w) scheduler" where
  "scheduleNow state s = scheduleAbsoluteWithState state (clock s) s"

definition scheduleRelative ::
  "('t \<Rightarrow> 'r \<Rightarrow> 't) \<Rightarrow> 'r \<Rightarrow> 'p \<Rightarrow> ('t, 'p, 'w) scheduler \<Rightarrow> nat \<times> ('t, 'p, 'w) scheduler" where
  "scheduleRelative add due action s = scheduleRelativeWithState add action due s"

definition scheduleAbsolute ::
  "'t \<Rightarrow> 'p \<Rightarrow> ('t, 'p, 'w) scheduler \<Rightarrow> nat \<times> ('t, 'p, 'w) scheduler" where
  "scheduleAbsolute due action s = scheduleAbsoluteWithState action due s"

text \<open>
  Modelled from the spec: the cancellation handle (the disposable of a scheduled item) is
  not part of the file. Invoking it sets the flag of the item and leaves the item in the
  queue; it has no effect on an item that has left the queue.
\<close>

definition dispose :: "nat \<Rightarrow> ('t, 'p, 'w) scheduler \<Rightarrow> ('t, 'p, 'w) scheduler" where
  "dispose h s =
     s\<lparr>queue := map (\<lambda>x. if item_id x = h then x\<lparr>isCancelled := True\<rparr> else x) (queue s)\<rparr>"

text \<open>
  The closure \<^verbatim>\<open>run\<close> of \<^verbatim>\<open>scheduleAbsoluteWithState\<close> removes the item from the queue
  and calls the user action.
\<close>

definition run ::
  "('p \<Rightarrow> ('t, 'p, 'w) scheduler \<Rightarrow> ('t, 'p, 'w) scheduler) \<Rightarrow> ('t, 'p) scheduled_item
     \<Rightarrow> ('t, 'p, 'w) scheduler \<Rightarrow> ('t, 'p, 'w) scheduler" where
  "run act si s = act (payload si) (s\<lparr>queue := remove si (queue s)\<rparr>)"

text \<open>
  Modelled from the spec: the method \<^verbatim>\<open>invoke\<close> of ScheduledItem is not part of the file.
  It calls the action the item was built with, which is the closure \<^verbatim>\<open>run\<close>.
\<close>

definition invoke ::
  "('p \<Rightarrow> ('t, 'p, 'w) scheduler \<Rightarrow> ('t, 'p, 'w) scheduler) \<Rightarrow> ('t, 'p) scheduled_item
     \<Rightarrow> ('t, 'p, 'w) scheduler \<Rightarrow> ('t, 'p, 'w) scheduler" where
  "invoke act si s = run act si s"

subsection \<open>getNext\<close>

lemma peek_from_mem: "peek_from comparer m xs \<in> set (m # xs)"
  by (induction xs arbitrary: m) auto

lemma peek_mem: "peek comparer q = Some m \<Longrightarrow> m \<in> set q"
  using peek_from_mem [of comparer] by (auto simp: peek_def split: list.splits)

lemma peek_None: "peek comparer q = None \<longleftrightarrow> q = []"
  by (simp add: peek_def split: list.splits)

lemma length_remove_less: "m \<in> set q \<Longrightarrow> length (remove m q) < length q"
  unfolding remove_def by (induction q) (auto simp: less_Suc_eq_le)

lemma length_dequeue_less: "q \<noteq> [] \<Longrightarrow> length (dequeue comparer q) < length q"
  by (cases "peek comparer q") (auto simp: dequeue_def peek_None peek_mem length_remove_less)

text \<open>
  The while loop of \<^verbatim>\<open>getNext\<close> on the queue. \<open>peek\<close> finds an item whenever the queue
  is not empty, so the branch \<open>None\<close> under a non-empty queue is never taken.
\<close>

function getNext_loop ::
  "('t \<Rightarrow> 't \<Rightarrow> int) \<Rightarrow> ('t, 'p) priority_queue
     \<Rightarrow> ('t, 'p) scheduled_item option \<times> ('t, 'p) priority_queue" where
  "getNext_loop comparer q =
     (if length q > 0 then
        (case peek comparer q of
           None \<Rightarrow> (None, q)
         | Some next \<Rightarrow>
             if isCancelled next then getNext_loop comparer (dequeue comparer q)
             else (Some next, q))
      else (None, q))"
  by pat_completeness auto
termination
  by (relation "measure (\<lambda>(comparer, q). length q)") (auto simp: length_dequeue_less)

declare getNext_loop.simps [simp del]

definition getNext ::
  "('t \<Rightarrow> 't \<Rightarrow> int) \<Rightarrow> ('t, 'p, 'w) scheduler
     \<Rightarrow> ('t, 'p) scheduled_item option \<times> ('t, 'p, 'w) scheduler" where
  "getNext comparer s =
     (let (next, q) = getNext_loop comparer (queue s) in (next, s\<lparr>queue := q\<rparr>))"

subsection \<open>start and stop\<close>

text \<open>
  One pass through the body of the do-while loop of \<^verbatim>\<open>start\<close>. Besides the new state the
  pass reports what it invoked: the item, and the clock the action found.
\<close>

definition start_body ::
  "('t \<Rightarrow> 't \<Rightarrow> int) \<Rightarrow> ('p \<Rightarrow> ('t, 'p, 'w) scheduler \<Rightarrow> ('t, 'p, 'w) scheduler)
     \<Rightarrow> ('t, 'p, 'w) scheduler \<Rightarrow> ('t, 'p, 'w) scheduler \<times> ('t, 'p) invocation list" where
  "start_body comparer act s =
     (case getNext comparer s of
        (Some next, s1) \<Rightarrow>
          let s2 = (if comparer (dueTime next) (clock s1) > 0
                    then s1\<lparr>clock := dueTime next\<rparr> else s1)
          in (invoke act next s2, [(next, clock s2)])
      | (None, s1) \<Rightarrow> (s1\<lparr>isEnabled := False\<rparr>, []))"

partial_function (option) start_loop ::
  "('t \<Rightarrow> 't \<Rightarrow> int) \<Rightarrow> ('p \<Rightarrow> ('t, 'p, 'w) scheduler \<Rightarrow> ('t, 'p, 'w) scheduler)
     \<Rightarrow> ('t, 'p, 'w) scheduler
     \<Rightarrow> (('t, 'p, 'w) scheduler \<times> ('t, 'p) invocation list) option" where
  "start_loop comparer act s =
     (let (s1, tr) = start_body comparer act s
      in if isEnabled s1
         then Option.bind (start_loop comparer act s1) (\<lambda>(s2, tr2). Some (s2, tr @ tr2))
         else Some (s1, tr))"

definition start ::
  "('t \<Rightarrow> 't \<Rightarrow> int) \<Rightarrow> ('p \<Rightarrow> ('t, 'p, 'w) scheduler \<Rightarrow> ('t, 'p, 'w) scheduler)
     \<Rightarrow> ('t, 'p, 'w) scheduler
     \<Rightarrow> (('t, 'p, 'w) scheduler \<times> ('t, 'p) invocation list) option" where
  "start comparer act s =
     (if \<not> isEnabled s then start_loop comparer act (s\<lparr>isEnabled := True\<rparr>)
      else Some (s, []))"

definition stop :: "('t, 'p, 'w) scheduler \<Rightarrow> ('t, 'p, 'w) scheduler" where
  "stop s = s\<lparr>isEnabled := False\<rparr>"

text \<open>
  The run loop of \<^verbatim>\<open>start\<close> in the words of the specification, to be compared with
  \<open>start_loop\<close>: \<open>spec_start_loop comparer act z z' tr\<close> says that the loop entered in the
  state \<open>z\<close> ends in the state \<open>z'\<close> after the invocations \<open>tr\<close>. When \<^verbatim>\<open>getNext\<close> finds
  nothing, the scheduler goes back to idle and the loop ends. Otherwise the clock goes to
  the due time of the item if that is strictly later, and the item is invoked, which
  removes it from the queue and runs its action; then the loop ends if the action has
  cleared \<open>isEnabled\<close>, and repeats if not.
\<close>

inductive spec_start_loop ::
  "('t \<Rightarrow> 't \<Rightarrow> int) \<Rightarrow> ('p \<Rightarrow> ('t, 'p, 'w) scheduler \<Rightarrow> ('t, 'p, 'w) scheduler)
     \<Rightarrow> ('t, 'p, 'w) scheduler \<Rightarrow> ('t, 'p, 'w) scheduler \<Rightarrow> ('t, 'p) invocation list \<Rightarrow> bool"
  for comparer act where
  drained:
    "getNext comparer z = (None, z1) \<Longrightarrow>
     spec_start_loop comparer act z (z1\<lparr>isEnabled := False\<rparr>) []"
| stopped:
    "getNext comparer z = (Some si, z1) \<Longrightarrow>
     c = (if comparer (dueTime si) (clock z1) > 0 then dueTime si else clock z1) \<Longrightarrow>
     z2 = act (payload si) (z1\<lparr>clock := c, queue := remove si (queue z1)\<rparr>) \<Longrightarrow>
     \<not> isEnabled z2 \<Longrightarrow>
     spec_start_loop comparer act z z2 [(si, c)]"
| repeated:
    "getNext comparer z = (Some si, z1) \<Longrightarrow>
     c = (if comparer (dueTime si) (clock z1) > 0 then dueTime si else clock z1) \<Longrightarrow>
     z2 = act (payload si) (z1\<lparr>clock := c, queue := remove si (queue z1)\<rparr>) \<Longrightarrow>
     isEnabled z2 \<Longrightarrow>
     spec_start_loop comparer act z2 z3 tr \<Longrightarrow>
     spec_start_loop comparer act z z3 ((si, c) # tr)"

subsection \<open>advanceTo, advanceBy and sleep\<close>

text \<open>
  A call that throws yields \<open>Inl\<close> of the error and the state at the throw; a call that
  returns yields \<open>Inr\<close> of the state and the invocations it made. A call that never
  returns is \<open>None\<close>.
\<close>

definition advanceTo_body ::
  "('t \<Rightarrow> 't \<Rightarrow> int) \<Rightarrow> ('p \<Rightarrow> ('t, 'p, 'w) scheduler \<Rightarrow> ('t, 'p, 'w) scheduler) \<Rightarrow> 't
     \<Rightarrow> ('t, 'p, 'w) scheduler \<Rightarrow> ('t, 'p, 'w) scheduler \<times> ('t, 'p) invocation list" where
  "advanceTo_body comparer act time s =
     (case getNext comparer s of
        (Some next, s1) \<Rightarrow>
          if comparer (dueTime next) time \<le> 0 then
            let s2 = (if comparer (dueTime next) (clock s1) > 0
                      then s1\<lparr>clock := dueTime next\<rparr> else s1)
            in (invoke act next s2, [(next, clock s2)])
          else (s1\<lparr>isEnabled := False\<rparr>, [])
      | (None, s1) \<Rightarrow> (s1\<lparr>isEnabled := False\<rparr>, []))"

partial_function (option) advanceTo_loop ::
  "('t \<Rightarrow> 't \<Rightarrow> int) \<Rightarrow> ('p \<Rightarrow> ('t, 'p, 'w) scheduler \<Rightarrow> ('t, 'p, 'w) scheduler) \<Rightarrow> 't
     \<Rightarrow> ('t, 'p, 'w) scheduler
     \<Rightarrow> (('t, 'p, 'w) scheduler \<times> ('t, 'p) invocation list) option" where
  "advanceTo_loop comparer act time s =
     (let (s1, tr) = advanceTo_body comparer act time s
      in if isEnabled s1
         then Option.bind (advanceTo_loop comparer act time s1)
                (\<lambda>(s2, tr2). Some (s2, tr @ tr2))
         else Some (s1, tr))"

definition advanceTo ::
  "('t \<Rightarrow> 't \<Rightarrow> int) \<Rightarrow> ('p \<Rightarrow> ('t, 'p, 'w) scheduler \<Rightarrow> ('t, 'p, 'w) scheduler) \<Rightarrow> 't
     \<Rightarrow> ('t, 'p, 'w) scheduler
     \<Rightarrow> (error \<times> ('t, 'p, 'w) scheduler
          + ('t, 'p, 'w) scheduler \<times> ('t, 'p) invocation list) option" where
  "advanceTo comparer act time s =
     (let dueToClock = comparer (clock s) time
      in if comparer (clock s) time > 0 then Some (Inl (ArgumentOutOfRange, s))
         else if dueToClock = 0 then Some (Inr (s, []))
         else if \<not> isEnabled s then
           Option.bind (advanceTo_loop comparer act time (s\<lparr>isEnabled := True\<rparr>))
             (\<lambda>(s1, tr). Some (Inr (s1\<lparr>clock := time\<rparr>, tr)))
         else Some (Inr (s, [])))"

definition advanceBy ::
  "('t \<Rightarrow> 'r \<Rightarrow> 't) \<Rightarrow> ('t \<Rightarrow> 't \<Rightarrow> int)
     \<Rightarrow> ('p \<Rightarrow> ('t, 'p, 'w) scheduler \<Rightarrow> ('t, 'p, 'w) scheduler) \<Rightarrow> 'r
     \<Rightarrow> ('t, 'p, 'w) scheduler
     \<Rightarrow> (error \<times> ('t, 'p, 'w) scheduler
          + ('t, 'p, 'w) scheduler \<times> ('t, 'p) invocation list) option" where
  "advanceBy add comparer act time s =
     (let dt = add (clock s) time;
          dueToClock = comparer (clock s) dt
      in if dueToClock > 0 then Some (Inl (ArgumentOutOfRange, s))
         else if dueToClock = 0 then Some (Inr (s, []))
         else advanceTo comparer act dt s)"

definition sleep ::
  "('t \<Rightarrow> 'r \<Rightarrow> 't) \<Rightarrow> ('t \<Rightarrow> 't \<Rightarrow> int) \<Rightarrow> 'r \<Rightarrow> ('t, 'p, 'w) scheduler
     \<Rightarrow> error \<times> ('t, 'p, 'w) scheduler + ('t, 'p, 'w) scheduler" where
  "sleep add comparer time s =
     (let dt = add (clock s) time
      in if comparer (clock s) dt \<ge> 0 then Inl (ArgumentOutOfRange, s)
         else Inr (s\<lparr>clock := dt\<rparr>))"

subsection \<open>Comparers\<close>

text \<open>
  The comparer is supplied by the caller. Statements about the order in which items run
  need it to be the comparison function of a total order: zero exactly on equal times,
  antisymmetric in sign, and transitive.
\<close>

definition total_order_comparer :: "('t \<Rightarrow> 't \<Rightarrow> int) \<Rightarrow> bool" where
  "total_order_comparer comparer \<longleftrightarrow>
     (\<forall>a b. comparer a b = 0 \<longleftrightarrow> a = b) \<and>
     (\<forall>a b. comparer a b > 0 \<longleftrightarrow> comparer b a < 0) \<and>
     (\<forall>a b c. comparer a b \<le> 0 \<and> comparer b c \<le> 0 \<longrightarrow> comparer a c \<le> 0)"

text \<open>
  Modelled from the spec: the time values of the scenarios are numbers, compared by a
  comparer with results in -1, 0, 1 and added by number addition. The scheduler itself
  leaves both to its subclasses.
\<close>

definition numberComparer :: "int \<Rightarrow> int \<Rightarrow> int" where
  "numberComparer x y = (if x > y then 1 else if x < y then - 1 else 0)"

definition numberAdd :: "int \<Rightarrow> int \<Rightarrow> int" where
  "numberAdd absolute relative = absolute + relative"

text \<open>
  A sequence of calls of \<^verbatim>\<open>scheduleRelativeWithState\<close>, each with its state and its
  relative due time, in the order of the list. The handles are dropped.
\<close>

definition scheduleAll ::
  "('t \<Rightarrow> 'r \<Rightarrow> 't) \<Rightarrow> ('p \<times> 'r) list \<Rightarrow> ('t, 'p, 'w) scheduler \<Rightarrow> ('t, 'p, 'w) scheduler" where
  "scheduleAll add requests s =
     fold (\<lambda>(state, due) z. snd (scheduleRelativeWithState add state due z)) requests s"

subsection \<open>Periodic scheduling\<close>

text \<open>
  Modelled from the spec: the helper SchedulePeriodicRecursive that
  \<^verbatim>\<open>schedulePeriodicWithState\<close> builds and starts is not part of the file. On construction
  it schedules a first tick with \<^verbatim>\<open>scheduleRelativeWithState\<close>, one period from the clock.
  A tick does nothing when the chain is cancelled; otherwise it calls the user action on
  the current state to get the next state, and schedules the next tick at its own due
  time plus the period, with the next state. The payload of a tick is the current state
  and the due time of the tick. The world holds the flag that the handle of the chain
  sets, and the list of the calls of the user action: the clock at the call and the
  state the call returned.
\<close>

record ('t, 'a) periodic_world =
  chainCancelled :: bool
  calls :: "('t \<times> 'a) list"

definition schedulePeriodicWithState ::
  "('t \<Rightarrow> 'r \<Rightarrow> 't) \<Rightarrow> 'a \<Rightarrow> 'r \<Rightarrow> ('t, 'a \<times> 't, 'w) scheduler
     \<Rightarrow> ('t, 'a \<times> 't, 'w) scheduler" where
  "schedulePeriodicWithState add state period s =
     snd (scheduleRelativeWithState add (state, add (clock s) period) period s)"

definition tick ::
  "('t \<Rightarrow> 'r \<Rightarrow> 't) \<Rightarrow> 'r \<Rightarrow> ('a \<Rightarrow> 'a) \<Rightarrow> 'a \<times> 't
     \<Rightarrow> ('t, 'a \<times> 't, ('t, 'a) periodic_world) scheduler
     \<Rightarrow> ('t, 'a \<times> 't, ('t, 'a) periodic_world) scheduler" where
  "tick add period action p s =
     (if chainCancelled (world s) then s
      else
        let state = action (fst p);
            s1 = s\<lparr>world := (world s)\<lparr>calls := calls (world s) @ [(clock s, state)]\<rparr>\<rparr>;
            due = add (snd p) period
        in snd (scheduleAbsoluteWithState (state, due) due s1))"

definition cancelPeriodic ::
  "('t, 'p, ('t, 'a) periodic_world) scheduler \<Rightarrow> ('t, 'p, ('t, 'a) periodic_world) scheduler" where
  "cancelPeriodic s = s\<lparr>world := (world s)\<lparr>chainCancelled := True\<rparr>\<rparr>"

text \<open>The user action of the scenario: the next state is the state plus one.\<close>

definition increment :: "int \<Rightarrow> int" where
  "increment state = state + 1"

text \<open>Observed clocks that never decrease along a list of invocations.\<close>

definition clocks_ascend :: "('t \<Rightarrow> 't \<Rightarrow> int) \<Rightarrow> ('t, 'p) invocation list \<Rightarrow> bool" where
  "clocks_ascend comparer tr \<longleftrightarrow> sorted_wrt (\<lambda>a b. comparer (snd a) (snd b) \<le> 0) tr"

text \<open>An action that does nothing.\<close>

definition noAction :: "'p \<Rightarrow> ('t, 'p, 'w) scheduler \<Rightarrow> ('t, 'p, 'w) scheduler" where
  "noAction p s = s"

text \<open>An action that disposes the handle its payload names, if it names one.\<close>

definition cancelling ::
  "nat option \<Rightarrow> ('t, nat option, 'w) scheduler \<Rightarrow> ('t, nat option, 'w) scheduler" where
  "cancelling p s = (case p of None \<Rightarrow> s | Some h \<Rightarrow> dispose h s)"

text \<open>
  An action that calls \<^verbatim>\<open>sleep(100)\<close> on the scheduler it runs under. With numbers as
  time values the call does not throw.
\<close>

definition sleeping :: "'p \<Rightarrow> (int, 'p, 'w) scheduler \<Rightarrow> (int, 'p, 'w) scheduler" where
  "sleeping p s = (case sleep numberAdd numberComparer 100 s of Inl (e, z) \<Rightarrow> z | Inr z \<Rightarrow> z)"

text \<open>
  A scheduler with clock 0 on which three items were scheduled: item 0 at time 1, whose
  action cancels item 1, and items 1 and 2 at time 2. The handle of item 2 was disposed.
\<close>

definition threeItems :: "(int, nat option, unit) scheduler" where
  "threeItems =
     dispose 2
       (snd (scheduleRelativeWithState numberAdd None 2
         (snd (scheduleRelativeWithState numberAdd None 2
           (snd (scheduleRelativeWithState numberAdd (Some 1) 1
             (VirtualTimeScheduler 0 ())))))))"

text \<open>
  A scheduler in the middle of a run, as an action finds it: \<open>isEnabled\<close> is true, the
  clock is 0 and one item is queued for time 3.
\<close>

definition busy :: "(int, unit, unit) scheduler" where
  "busy =
     \<lparr>clock = 0, isEnabled = True,
      queue = [\<lparr>item_id = 0, dueTime = 3, payload = (), isCancelled = False\<rparr>],
      nextSequence = 1, world = ()\<rparr>"

subsection \<open>What the user actions may do\<close>

text \<open>
  The scheduler runs code it does not know, so a statement about a run says what it relies
  on. In a well-formed state the queued items have distinct identities, all of them
  already issued.
\<close>

definition wellformed :: "('t, 'p, 'w) scheduler \<Rightarrow> bool" where
  "wellformed s \<longleftrightarrow>
     distinct (map item_id (queue s)) \<and> (\<forall>x \<in> set (queue s). item_id x < nextSequence s)"

text \<open>No action calls \<^verbatim>\<open>stop\<close>: an action that starts with \<open>isEnabled\<close> set leaves it set.\<close>

definition never_stops ::
  "('p \<Rightarrow> ('t, 'p, 'w) scheduler \<Rightarrow> ('t, 'p, 'w) scheduler) \<Rightarrow> bool" where
  "never_stops act \<longleftrightarrow> (\<forall>p s. isEnabled s \<longrightarrow> isEnabled (act p s))"

text \<open>No action moves the clock backward; no action moves the clock at all.\<close>

definition never_rewinds ::
  "('t \<Rightarrow> 't \<Rightarrow> int) \<Rightarrow> ('p \<Rightarrow> ('t, 'p, 'w) scheduler \<Rightarrow> ('t, 'p, 'w) scheduler) \<Rightarrow> bool" where
  "never_rewinds comparer act \<longleftrightarrow> (\<forall>p s. comparer (clock s) (clock (act p s)) \<le> 0)"

definition keeps_clock ::
  "('p \<Rightarrow> ('t, 'p, 'w) scheduler \<Rightarrow> ('t, 'p, 'w) scheduler) \<Rightarrow> bool" where
  "keeps_clock act \<longleftrightarrow> (\<forall>p s. clock (act p s) = clock s)"

text \<open>No action moves the clock past the time \<open>time\<close>, from a clock that is not past it.\<close>

definition stays_within ::
  "('t \<Rightarrow> 't \<Rightarrow> int) \<Rightarrow> 't \<Rightarrow> ('p \<Rightarrow> ('t, 'p, 'w) scheduler \<Rightarrow> ('t, 'p, 'w) scheduler)
     \<Rightarrow> bool" where
  "stays_within comparer time act \<longleftrightarrow>
     (\<forall>p s. comparer (clock s) time \<le> 0 \<longrightarrow> comparer (clock (act p s)) time \<le> 0)"

text \<open>
  No action takes an item out of the queue or changes a queued item (so none cancels
  one), and the state stays well-formed: the action may add items, as
  \<^verbatim>\<open>scheduleAbsoluteWithState\<close> does.
\<close>

definition keeps_queued ::
  "('p \<Rightarrow> ('t, 'p, 'w) scheduler \<Rightarrow> ('t, 'p, 'w) scheduler) \<Rightarrow> bool" where
  "keeps_queued act \<longleftrightarrow>
     (\<forall>p s. set (queue s) \<subseteq> set (queue (act p s)) \<and> (wellformed s \<longrightarrow> wellformed (act p s)))"

text \<open>
  The handle \<open>h\<close> has been issued and disposed: no queued item with the identity \<open>h\<close> has
  its flag unset. No action undoes this: the flag is never reset and the identity is
  never given to a new item.
\<close>

definition cancelled_in :: "nat \<Rightarrow> ('t, 'p, 'w) scheduler \<Rightarrow> bool" where
  "cancelled_in h s \<longleftrightarrow>
     h < nextSequence s \<and> (\<forall>x \<in> set (queue s). item_id x = h \<longrightarrow> isCancelled x)"

definition keeps_cancelled ::
  "nat \<Rightarrow> ('p \<Rightarrow> ('t, 'p, 'w) scheduler \<Rightarrow> ('t, 'p, 'w) scheduler) \<Rightarrow> bool" where
  "keeps_cancelled h act \<longleftrightarrow> (\<forall>p s. cancelled_in h s \<longrightarrow> cancelled_in h (act p s))"

text \<open>The actions do not touch the scheduler: they only read it and change the world.\<close>

definition leaves_scheduler ::
  "('p \<Rightarrow> ('t, 'p, 'w) scheduler \<Rightarrow> ('t, 'p, 'w) scheduler) \<Rightarrow> bool" where
  "leaves_scheduler act \<longleftrightarrow>
     (\<forall>p s. clock (act p s) = clock s \<and> isEnabled (act p s) = isEnabled s \<and>
        queue (act p s) = queue s \<and> nextSequence (act p s) = nextSequence s)"

text \<open>The equations of \<open>start_loop\<close> and \<open>advanceTo_loop\<close> are the code equations used to run them.\<close>

declare start_loop.simps [code]
declare advanceTo_loop.simps [code]

section \<open>Properties of the comparer and of the queue\<close>

lemma number_total_order: "total_order_comparer numberComparer"
  by (auto simp: total_order_comparer_def numberComparer_def)

lemma comparer_refl: "total_order_comparer comparer \<Longrightarrow> comparer a a = 0"
  by (simp add: total_order_comparer_def)

lemma comparer_eq: "total_order_comparer comparer \<Longrightarrow> comparer a b = 0 \<Longrightarrow> a = b"
  by (simp add: total_order_comparer_def)

lemma comparer_flip: "total_order_comparer comparer \<Longrightarrow> comparer a b > 0 \<longleftrightarrow> comparer b a < 0"
  by (simp add: total_order_comparer_def)

lemma comparer_trans:
  "total_order_comparer comparer \<Longrightarrow> comparer a b \<le> 0 \<Longrightarrow> comparer b c \<le> 0 \<Longrightarrow> comparer a c \<le> 0"
  unfolding total_order_comparer_def by blast

lemma comparer_less_le_trans:
  assumes "total_order_comparer comparer" "comparer a b < 0" "comparer b c \<le> 0"
  shows "comparer a c < 0"
proof (rule ccontr)
  assume "\<not> comparer a c < 0"
  then have "comparer c a \<le> 0"
    using comparer_flip [OF assms(1), of a c] comparer_flip [OF assms(1), of c a] by linarith
  with assms(3) have "comparer b a \<le> 0"
    using comparer_trans [OF assms(1)] by blast
  then show False
    using assms(2) comparer_flip [OF assms(1), of b a] by linarith
qed

lemma comparer_le_less_trans:
  assumes "total_order_comparer comparer" "comparer a b \<le> 0" "comparer b c < 0"
  shows "comparer a c < 0"
proof (rule ccontr)
  assume "\<not> comparer a c < 0"
  then have "comparer c a \<le> 0"
    using comparer_flip [OF assms(1), of a c] comparer_flip [OF assms(1), of c a] by linarith
  with assms(2) have "comparer c b \<le> 0"
    using comparer_trans [OF assms(1)] by blast
  then show False
    using assms(3) comparer_flip [OF assms(1), of c b] by linarith
qed

lemma comparer_total:
  "total_order_comparer comparer \<Longrightarrow> comparer a b \<le> 0 \<or> comparer b a \<le> 0"
  using comparer_flip [of comparer a b] by force

lemma compareTo_due:
  "compareTo comparer x y \<le> 0 \<Longrightarrow> comparer (dueTime x) (dueTime y) \<le> 0"
  by (auto simp: compareTo_def Let_def split: if_splits)

lemma compareTo_refl: "total_order_comparer comparer \<Longrightarrow> compareTo comparer x x = 0"
  by (simp add: compareTo_def comparer_refl)

lemma compareTo_flip:
  assumes "total_order_comparer comparer" "compareTo comparer x y \<ge> 0"
  shows "compareTo comparer y x \<le> 0"
proof (cases "comparer (dueTime x) (dueTime y) = 0")
  case True
  then have "dueTime x = dueTime y" using comparer_eq [OF assms(1)] by blast
  then show ?thesis using assms(2) comparer_refl [OF assms(1)] by (simp add: compareTo_def)
next
  case False
  then have "comparer (dueTime x) (dueTime y) > 0" using assms(2) by (simp add: compareTo_def)
  then have "comparer (dueTime y) (dueTime x) < 0" using comparer_flip [OF assms(1)] by blast
  then show ?thesis by (simp add: compareTo_def)
qed

lemma compareTo_total:
  "total_order_comparer comparer \<Longrightarrow> compareTo comparer x y \<le> 0 \<or> compareTo comparer y x \<le> 0"
  using compareTo_flip [of comparer x y] by linarith

lemma compareTo_trans:
  assumes "total_order_comparer comparer" "compareTo comparer x y \<le> 0" "compareTo comparer y z \<le> 0"
  shows "compareTo comparer x z \<le> 0"
proof -
  let ?c = "\<lambda>a b. comparer (dueTime a) (dueTime b)"
  have xy: "?c x y \<le> 0" and yz: "?c y z \<le> 0"
    using assms(2,3) by (auto dest: compareTo_due)
  show ?thesis
  proof (cases "?c x y = 0")
    case True
    then have e: "dueTime x = dueTime y" using comparer_eq [OF assms(1)] by blast
    show ?thesis
    proof (cases "?c y z = 0")
      case True
      then have "dueTime y = dueTime z" using comparer_eq [OF assms(1)] by blast
      then show ?thesis using e assms(2,3) comparer_refl [OF assms(1)]
        by (auto simp: compareTo_def Let_def split: if_splits)
    next
      case False
      then show ?thesis using e assms(3) by (auto simp: compareTo_def Let_def split: if_splits)
    qed
  next
    case False
    then have "?c x y < 0" using xy by simp
    then have "?c x z < 0" using comparer_less_le_trans [OF assms(1) _ yz] by blast
    then show ?thesis by (auto simp: compareTo_def Let_def)
  qed
qed

lemma compareTo_zero:
  "total_order_comparer comparer \<Longrightarrow> compareTo comparer x y = 0 \<Longrightarrow> item_id x = item_id y"
  by (auto simp: compareTo_def Let_def split: if_splits)

lemma peek_from_least:
  "total_order_comparer comparer \<Longrightarrow> y \<in> set (m # xs)
     \<Longrightarrow> compareTo comparer (peek_from comparer m xs) y \<le> 0"
proof (induction xs arbitrary: m y)
  case Nil
  then show ?case by (simp add: compareTo_refl)
next
  case (Cons x xs)
  let ?m' = "if isHigherPriority comparer x m then x else m"
  have m': "compareTo comparer ?m' x \<le> 0 \<and> compareTo comparer ?m' m \<le> 0"
    using compareTo_flip [OF Cons.prems(1), of x m]
    by (simp add: isHigherPriority_def compareTo_refl [OF Cons.prems(1)])
  have top: "compareTo comparer (peek_from comparer ?m' xs) ?m' \<le> 0"
    by (rule Cons.IH [OF Cons.prems(1)]) simp
  consider "y = m" | "y = x" | "y \<in> set xs" using Cons.prems(2) by auto
  then show ?case
  proof cases
    case 1
    then show ?thesis using compareTo_trans [OF Cons.prems(1) top] m' by simp
  next
    case 2
    then show ?thesis using compareTo_trans [OF Cons.prems(1) top] m' by simp
  next
    case 3
    then have "compareTo comparer (peek_from comparer ?m' xs) y \<le> 0"
      by (intro Cons.IH [OF Cons.prems(1)]) simp
    then show ?thesis by simp
  qed
qed

lemma peek_least:
  "total_order_comparer comparer \<Longrightarrow> peek comparer q = Some m \<Longrightarrow> y \<in> set q
     \<Longrightarrow> compareTo comparer m y \<le> 0"
  using peek_from_least [of comparer y] by (auto simp: peek_def split: list.splits)

lemma set_remove: "set (remove m q) = {x \<in> set q. item_id x \<noteq> item_id m}"
  by (auto simp: remove_def)

lemma length_remove_le: "length (remove m q) \<le> length q"
  by (simp add: remove_def)

lemma distinct_remove: "distinct (map item_id q) \<Longrightarrow> distinct (map item_id (remove m q))"
  by (simp add: remove_def distinct_map_filter)

lemma getNext_loop_subset: "getNext_loop comparer q = (r, q') \<Longrightarrow> set q' \<subseteq> set q"
proof (induction comparer q rule: getNext_loop.induct)
  case (1 comparer q)
  show ?case
  proof (cases "peek comparer q")
    case None
    then show ?thesis using "1.prems" by (simp add: getNext_loop.simps split: if_splits)
  next
    case (Some m)
    then have ne: "q \<noteq> []" by (auto simp: peek_def)
    show ?thesis
    proof (cases "isCancelled m")
      case True
      then have "getNext_loop comparer (dequeue comparer q) = (r, q')"
        using "1.prems" Some ne by (simp add: getNext_loop.simps [of comparer q])
      then have "set q' \<subseteq> set (dequeue comparer q)"
        using "1.IH" [OF _ Some True] ne by simp
      then show ?thesis using Some by (auto simp: dequeue_def set_remove)
    next
      case False
      then show ?thesis using "1.prems" Some ne by (simp add: getNext_loop.simps [of comparer q])
    qed
  qed
qed

lemma getNext_loop_length: "getNext_loop comparer q = (r, q') \<Longrightarrow> length q' \<le> length q"
proof (induction comparer q rule: getNext_loop.induct)
  case (1 comparer q)
  show ?case
  proof (cases "peek comparer q")
    case None
    then show ?thesis using "1.prems" by (simp add: getNext_loop.simps split: if_splits)
  next
    case (Some m)
    then have ne: "q \<noteq> []" by (auto simp: peek_def)
    show ?thesis
    proof (cases "isCancelled m")
      case True
      then have "getNext_loop comparer (dequeue comparer q) = (r, q')"
        using "1.prems" Some ne by (simp add: getNext_loop.simps [of comparer q])
      then have "length q' \<le> length (dequeue comparer q)"
        using "1.IH" [OF _ Some True] ne by simp
      then show ?thesis using length_dequeue_less [OF ne, of comparer] by simp
    next
      case False
      then show ?thesis using "1.prems" Some ne by (simp add: getNext_loop.simps [of comparer q])
    qed
  qed
qed

lemma getNext_loop_Some:
  "getNext_loop comparer q = (Some si, q') \<Longrightarrow> peek comparer q' = Some si \<and> \<not> isCancelled si"
proof (induction comparer q rule: getNext_loop.induct)
  case (1 comparer q)
  show ?case
  proof (cases "peek comparer q")
    case None
    then show ?thesis using "1.prems" by (simp add: getNext_loop.simps split: if_splits)
  next
    case (Some m)
    then have ne: "q \<noteq> []" by (auto simp: peek_def)
    show ?thesis
    proof (cases "isCancelled m")
      case True
      then have "getNext_loop comparer (dequeue comparer q) = (Some si, q')"
        using "1.prems" Some ne by (simp add: getNext_loop.simps [of comparer q])
      then show ?thesis using "1.IH" [OF _ Some True] ne by simp
    next
      case False
      then show ?thesis using "1.prems" Some ne by (auto simp: getNext_loop.simps [of comparer q])
    qed
  qed
qed

lemma getNext_loop_None: "getNext_loop comparer q = (None, q') \<Longrightarrow> q' = []"
proof (induction comparer q rule: getNext_loop.induct)
  case (1 comparer q)
  show ?case
  proof (cases "peek comparer q")
    case None
    then show ?thesis using "1.prems" by (simp add: getNext_loop.simps peek_None split: if_splits)
  next
    case (Some m)
    then have ne: "q \<noteq> []" by (auto simp: peek_def)
    show ?thesis
    proof (cases "isCancelled m")
      case True
      then have "getNext_loop comparer (dequeue comparer q) = (None, q')"
        using "1.prems" Some ne by (simp add: getNext_loop.simps [of comparer q])
      then show ?thesis using "1.IH" [OF _ Some True] ne by simp
    next
      case False
      then show ?thesis using "1.prems" Some ne by (simp add: getNext_loop.simps [of comparer q])
    qed
  qed
qed

lemma getNext_loop_keeps:
  "getNext_loop comparer q = (r, q') \<Longrightarrow> distinct (map item_id q) \<Longrightarrow> x \<in> set q
     \<Longrightarrow> \<not> isCancelled x \<Longrightarrow> x \<in> set q'"
proof (induction comparer q rule: getNext_loop.induct)
  case (1 comparer q)
  show ?case
  proof (cases "peek comparer q")
    case None
    then show ?thesis using "1.prems" by (simp add: getNext_loop.simps split: if_splits)
  next
    case (Some m)
    then have ne: "q \<noteq> []" by (auto simp: peek_def)
    show ?thesis
    proof (cases "isCancelled m")
      case True
      then have *: "getNext_loop comparer (dequeue comparer q) = (r, q')"
        using "1.prems" Some ne by (simp add: getNext_loop.simps [of comparer q])
      have "m \<in> set q" using Some by (rule peek_mem)
      then have "item_id x \<noteq> item_id m"
        using "1.prems"(2,3,4) True by (auto simp: distinct_map inj_on_def)
      then have "x \<in> set (dequeue comparer q)"
        using "1.prems"(3) Some by (simp add: dequeue_def set_remove)
      moreover have "distinct (map item_id (dequeue comparer q))"
        using "1.prems"(2) Some by (simp add: dequeue_def distinct_remove)
      ultimately show ?thesis using "1.IH" [OF _ Some True *] ne "1.prems"(4) by simp
    next
      case False
      then show ?thesis using "1.prems" Some ne by (simp add: getNext_loop.simps [of comparer q])
    qed
  qed
qed

lemma getNext_loop_distinct:
  "getNext_loop comparer q = (r, q') \<Longrightarrow> distinct (map item_id q) \<Longrightarrow> distinct (map item_id q')"
proof (induction comparer q rule: getNext_loop.induct)
  case (1 comparer q)
  show ?case
  proof (cases "peek comparer q")
    case None
    then show ?thesis using "1.prems" by (simp add: getNext_loop.simps split: if_splits)
  next
    case (Some m)
    then have ne: "q \<noteq> []" by (auto simp: peek_def)
    show ?thesis
    proof (cases "isCancelled m")
      case True
      then have *: "getNext_loop comparer (dequeue comparer q) = (r, q')"
        using "1.prems" Some ne by (simp add: getNext_loop.simps [of comparer q])
      have "distinct (map item_id (dequeue comparer q))"
        using "1.prems"(2) Some by (simp add: dequeue_def distinct_remove)
      then show ?thesis using "1.IH" [OF _ Some True *] ne by simp
    next
      case False
      then show ?thesis using "1.prems" Some ne by (simp add: getNext_loop.simps [of comparer q])
    qed
  qed
qed

section \<open>The run loop of start and the run loop of advanceTo\<close>

lemma getNext_fields:
  "getNext comparer s = (r, s1) \<Longrightarrow>
     clock s1 = clock s \<and> isEnabled s1 = isEnabled s \<and> nextSequence s1 = nextSequence s \<and>
     world s1 = world s \<and> getNext_loop comparer (queue s) = (r, queue s1)"
  by (auto simp: getNext_def split: prod.splits)

lemma start_body_None:
  "getNext comparer s = (None, s1) \<Longrightarrow> start_body comparer act s = (s1\<lparr>isEnabled := False\<rparr>, [])"
  by (simp add: start_body_def)

lemma start_body_Some:
  "getNext comparer s = (Some si, s1) \<Longrightarrow>
     start_body comparer act s =
       (act (payload si)
          (s1\<lparr>clock := (if comparer (dueTime si) (clock s1) > 0 then dueTime si else clock s1),
              queue := remove si (queue s1)\<rparr>),
        [(si, if comparer (dueTime si) (clock s1) > 0 then dueTime si else clock s1)])"
  by (simp add: start_body_def invoke_def run_def)

lemma advanceTo_body_None:
  "getNext comparer s = (None, s1) \<Longrightarrow>
     advanceTo_body comparer act time s = (s1\<lparr>isEnabled := False\<rparr>, [])"
  by (simp add: advanceTo_body_def)

lemma advanceTo_body_late:
  "getNext comparer s = (Some si, s1) \<Longrightarrow> \<not> comparer (dueTime si) time \<le> 0 \<Longrightarrow>
     advanceTo_body comparer act time s = (s1\<lparr>isEnabled := False\<rparr>, [])"
  by (simp add: advanceTo_body_def)

lemma advanceTo_body_Some:
  "getNext comparer s = (Some si, s1) \<Longrightarrow> comparer (dueTime si) time \<le> 0 \<Longrightarrow>
     advanceTo_body comparer act time s =
       (act (payload si)
          (s1\<lparr>clock := (if comparer (dueTime si) (clock s1) > 0 then dueTime si else clock s1),
              queue := remove si (queue s1)\<rparr>),
        [(si, if comparer (dueTime si) (clock s1) > 0 then dueTime si else clock s1)])"
  by (simp add: advanceTo_body_def invoke_def run_def)

lemma start_loop_exit:
  "start_body comparer act s = (s1, tr1) \<Longrightarrow> \<not> isEnabled s1
     \<Longrightarrow> start_loop comparer act s = Some (s1, tr1)"
  by (subst start_loop.simps) simp

lemma start_loop_continue:
  "start_body comparer act s = (s1, tr1) \<Longrightarrow> isEnabled s1
     \<Longrightarrow> start_loop comparer act s =
         Option.bind (start_loop comparer act s1) (\<lambda>(s2, tr2). Some (s2, tr1 @ tr2))"
  by (subst start_loop.simps) simp

lemma advanceTo_loop_exit:
  "advanceTo_body comparer act time s = (s1, tr1) \<Longrightarrow> \<not> isEnabled s1
     \<Longrightarrow> advanceTo_loop comparer act time s = Some (s1, tr1)"
  by (subst advanceTo_loop.simps) simp

lemma advanceTo_loop_continue:
  "advanceTo_body comparer act time s = (s1, tr1) \<Longrightarrow> isEnabled s1
     \<Longrightarrow> advanceTo_loop comparer act time s =
         Option.bind (advanceTo_loop comparer act time s1) (\<lambda>(s2, tr2). Some (s2, tr1 @ tr2))"
  by (subst advanceTo_loop.simps) simp

lemma start_loop_induct [consumes 1, case_names exit continue]:
  assumes run: "start_loop comparer act s = Some (s', tr)"
    and exit: "\<And>s s1 tr1. start_body comparer act s = (s1, tr1) \<Longrightarrow> \<not> isEnabled s1 \<Longrightarrow> P s s1 tr1"
    and continue: "\<And>s s1 tr1 s2 tr2. start_body comparer act s = (s1, tr1) \<Longrightarrow> isEnabled s1
        \<Longrightarrow> start_loop comparer act s1 = Some (s2, tr2) \<Longrightarrow> P s1 s2 tr2 \<Longrightarrow> P s s2 (tr1 @ tr2)"
  shows "P s s' tr"
proof -
  define Q where "Q = (\<lambda>c a s y. start_loop c a s = Some y \<and>
     (c = comparer \<and> a = act \<longrightarrow> P s (fst y) (snd y)))"
  have "Q comparer act s (s', tr)"
  proof (rule start_loop.raw_induct [where P = Q, OF _ run])
    fix f c a s y
    assume IH: "\<And>c a s y. f c a s = Some y \<Longrightarrow> Q c a s y"
      and eq: "(let (s1, tr) = start_body c a s
                in if isEnabled s1
                   then Option.bind (f c a s1) (\<lambda>(s2, tr2). Some (s2, tr @ tr2))
                   else Some (s1, tr)) = Some y"
    obtain s1 tr1 where body: "start_body c a s = (s1, tr1)" by (cases "start_body c a s")
    show "Q c a s y"
    proof (cases "isEnabled s1")
      case False
      then have y: "y = (s1, tr1)" using eq body by simp
      show ?thesis
        unfolding Q_def y using start_loop_exit [OF body False] exit [of s s1 tr1] body False
        by auto
    next
      case True
      then obtain s2 tr2 where f: "f c a s1 = Some (s2, tr2)" and y: "y = (s2, tr1 @ tr2)"
        using eq body by (auto simp: bind_eq_Some_conv)
      have q: "Q c a s1 (s2, tr2)" using IH [OF f] .
      then have loop: "start_loop c a s1 = Some (s2, tr2)" by (simp add: Q_def)
      have "start_loop c a s = Some (s2, tr1 @ tr2)"
        using start_loop_continue [OF body True] loop by simp
      moreover have "P s s2 (tr1 @ tr2)" if "c = comparer" "a = act"
        using continue [of s s1 tr1 s2 tr2] body True loop q that by (simp add: Q_def)
      ultimately show ?thesis unfolding Q_def y by simp
    qed
  qed
  then show ?thesis by (simp add: Q_def)
qed

lemma advanceTo_loop_induct [consumes 1, case_names exit continue]:
  assumes run: "advanceTo_loop comparer act time s = Some (s', tr)"
    and exit: "\<And>s s1 tr1. advanceTo_body comparer act time s = (s1, tr1) \<Longrightarrow> \<not> isEnabled s1
        \<Longrightarrow> P s s1 tr1"
    and continue: "\<And>s s1 tr1 s2 tr2. advanceTo_body comparer act time s = (s1, tr1)
        \<Longrightarrow> isEnabled s1 \<Longrightarrow> advanceTo_loop comparer act time s1 = Some (s2, tr2)
        \<Longrightarrow> P s1 s2 tr2 \<Longrightarrow> P s s2 (tr1 @ tr2)"
  shows "P s s' tr"
proof -
  define Q where "Q = (\<lambda>c a t s y. advanceTo_loop c a t s = Some y \<and>
     (c = comparer \<and> a = act \<and> t = time \<longrightarrow> P s (fst y) (snd y)))"
  have "Q comparer act time s (s', tr)"
  proof (rule advanceTo_loop.raw_induct [where P = Q, OF _ run])
    fix f c a t s y
    assume IH: "\<And>c a t s y. f c a t s = Some y \<Longrightarrow> Q c a t s y"
      and eq: "(let (s1, tr) = advanceTo_body c a t s
                in if isEnabled s1
                   then Option.bind (f c a t s1) (\<lambda>(s2, tr2). Some (s2, tr @ tr2))
                   else Some (s1, tr)) = Some y"
    obtain s1 tr1 where body: "advanceTo_body c a t s = (s1, tr1)"
      by (cases "advanceTo_body c a t s")
    show "Q c a t s y"
    proof (cases "isEnabled s1")
      case False
      then have y: "y = (s1, tr1)" using eq body by simp
      show ?thesis
        unfolding Q_def y using advanceTo_loop_exit [OF body False] exit [of s s1 tr1] body False
        by auto
    next
      case True
      then obtain s2 tr2 where f: "f c a t s1 = Some (s2, tr2)" and y: "y = (s2, tr1 @ tr2)"
        using eq body by (auto simp: bind_eq_Some_conv)
      have q: "Q c a t s1 (s2, tr2)" using IH [OF f] .
      then have loop: "advanceTo_loop c a t s1 = Some (s2, tr2)" by (simp add: Q_def)
      have "advanceTo_loop c a t s = Some (s2, tr1 @ tr2)"
        using advanceTo_loop_continue [OF body True] loop by simp
      moreover have "P s s2 (tr1 @ tr2)" if "c = comparer" "a = act" "t = time"
        using continue [of s s1 tr1 s2 tr2] body True loop q that by (simp add: Q_def)
      ultimately show ?thesis unfolding Q_def y by simp
    qed
  qed
  then show ?thesis by (simp add: Q_def)
qed

lemma getNext_eq:
  "getNext_loop comparer (queue s) = (r, q') \<Longrightarrow> getNext comparer s = (r, s\<lparr>queue := q'\<rparr>)"
  by (simp add: getNext_def)

lemma start_body_cases [consumes 1, case_names idle invoked]:
  assumes "start_body comparer act s = (s1, tr1)"
  obtains (idle) q' where "getNext_loop comparer (queue s) = (None, q')"
      "s1 = s\<lparr>queue := q', isEnabled := False\<rparr>" "tr1 = []"
  | (invoked) si q' c where "getNext_loop comparer (queue s) = (Some si, q')"
      "c = (if comparer (dueTime si) (clock s) > 0 then dueTime si else clock s)"
      "s1 = act (payload si) (s\<lparr>clock := c, queue := remove si q'\<rparr>)" "tr1 = [(si, c)]"
proof -
  obtain r q' where g: "getNext_loop comparer (queue s) = (r, q')"
    by (cases "getNext_loop comparer (queue s)")
  show thesis
  proof (cases r)
    case None
    then show ?thesis
      using assms g start_body_None [OF getNext_eq, of comparer s q' act] idle by auto
  next
    case (Some si)
    then show ?thesis
      using assms g start_body_Some [OF getNext_eq, of comparer s si q' act] invoked [of si q']
      by auto
  qed
qed

lemma advanceTo_body_cases [consumes 1, case_names idle invoked]:
  assumes "advanceTo_body comparer act time s = (s1, tr1)"
  obtains (idle) r q' where "getNext_loop comparer (queue s) = (r, q')"
      "\<And>si. r = Some si \<Longrightarrow> \<not> comparer (dueTime si) time \<le> 0"
      "s1 = s\<lparr>queue := q', isEnabled := False\<rparr>" "tr1 = []"
  | (invoked) si q' c where "getNext_loop comparer (queue s) = (Some si, q')"
      "comparer (dueTime si) time \<le> 0"
      "c = (if comparer (dueTime si) (clock s) > 0 then dueTime si else clock s)"
      "s1 = act (payload si) (s\<lparr>clock := c, queue := remove si q'\<rparr>)" "tr1 = [(si, c)]"
proof -
  obtain r q' where g: "getNext_loop comparer (queue s) = (r, q')"
    by (cases "getNext_loop comparer (queue s)")
  show thesis
  proof (cases r)
    case None
    then show ?thesis
      using assms g advanceTo_body_None [OF getNext_eq, of comparer s q' act time] idle [of r q']
      by auto
  next
    case (Some si)
    show ?thesis
    proof (cases "comparer (dueTime si) time \<le> 0")
      case True
      then show ?thesis
        using assms g Some advanceTo_body_Some [OF getNext_eq, of comparer s si q' time act]
          invoked [of si q'] by auto
    next
      case False
      then show ?thesis
        using assms g Some advanceTo_body_late [OF getNext_eq, of comparer s si q' time act]
          idle [of r q'] by auto
    qed
  qed
qed

subsection \<open>Only items that are not cancelled are invoked\<close>

lemma start_body_not_cancelled:
  "start_body comparer act s = (s1, tr1) \<Longrightarrow> (si, c) \<in> set tr1
     \<Longrightarrow> \<not> isCancelled si \<and> si \<in> set (queue s)"
proof (induction rule: start_body_cases)
  case (idle q')
  then show ?case by simp
next
  case (invoked sj q' d)
  then show ?case
    using getNext_loop_Some [OF invoked(1)] getNext_loop_subset [OF invoked(1)]
      peek_mem [of comparer q' sj] by auto
qed

lemma advanceTo_body_not_cancelled:
  "advanceTo_body comparer act time s = (s1, tr1) \<Longrightarrow> (si, c) \<in> set tr1
     \<Longrightarrow> \<not> isCancelled si \<and> si \<in> set (queue s) \<and> comparer (dueTime si) time \<le> 0"
proof (induction rule: advanceTo_body_cases)
  case (idle r q')
  then show ?case by simp
next
  case (invoked sj q' d)
  then show ?case
    using getNext_loop_Some [OF invoked(1)] getNext_loop_subset [OF invoked(1)]
      peek_mem [of comparer q' sj] by auto
qed

lemma start_loop_not_cancelled:
  "start_loop comparer act s = Some (s', tr) \<Longrightarrow> \<forall>(si, c) \<in> set tr. \<not> isCancelled si"
proof (induction rule: start_loop_induct)
  case (exit s s1 tr1)
  then show ?case using start_body_not_cancelled [OF exit(1)] by auto
next
  case (continue s s1 tr1 s2 tr2)
  then show ?case using start_body_not_cancelled [OF continue(1)] by auto
qed

lemma advanceTo_loop_not_cancelled:
  "advanceTo_loop comparer act time s = Some (s', tr)
     \<Longrightarrow> \<forall>(si, c) \<in> set tr. \<not> isCancelled si \<and> comparer (dueTime si) time \<le> 0"
proof (induction rule: advanceTo_loop_induct)
  case (exit s s1 tr1)
  then show ?case using advanceTo_body_not_cancelled [OF exit(1)] by auto
next
  case (continue s s1 tr1 s2 tr2)
  then show ?case using advanceTo_body_not_cancelled [OF continue(1)] by auto
qed

subsection \<open>A cancelled item stays out of the run\<close>

lemma cancelled_in_dispose: "h < nextSequence s \<Longrightarrow> cancelled_in h (dispose h s)"
proof -
  assume h: "h < nextSequence s"
  have "isCancelled x" if "x \<in> set (queue (dispose h s))" "item_id x = h" for x
  proof -
    have "x \<in> (\<lambda>y. if item_id y = h then y\<lparr>isCancelled := True\<rparr> else y) ` set (queue s)"
      using that(1) by (simp add: dispose_def)
    then obtain y where "x = (if item_id y = h then y\<lparr>isCancelled := True\<rparr> else y)"
      by (rule imageE)
    then show ?thesis using that(2) by (cases "item_id y = h") simp_all
  qed
  moreover have "nextSequence (dispose h s) = nextSequence s" by (simp add: dispose_def)
  ultimately show ?thesis using h by (simp add: cancelled_in_def)
qed

lemma cancelled_in_subset:
  "cancelled_in h s \<Longrightarrow> set (queue s1) \<subseteq> set (queue s) \<Longrightarrow> nextSequence s1 = nextSequence s
     \<Longrightarrow> cancelled_in h s1"
  by (auto simp: cancelled_in_def)

lemma start_body_cancelled_in:
  assumes "start_body comparer act s = (s1, tr1)" "keeps_cancelled h act" "cancelled_in h s"
  shows "cancelled_in h s1 \<and> (\<forall>(si, c) \<in> set tr1. item_id si \<noteq> h)"
  using assms(1)
proof (cases rule: start_body_cases)
  case (idle q')
  then show ?thesis
    using assms(3) getNext_loop_subset [OF idle(1)] by (auto simp: cancelled_in_def)
next
  case (invoked si q' c)
  have sub: "set q' \<subseteq> set (queue s)" using getNext_loop_subset [OF invoked(1)] .
  have "cancelled_in h (s\<lparr>clock := c, queue := remove si q'\<rparr>)"
    using assms(3) sub by (auto simp: cancelled_in_def set_remove)
  then have "cancelled_in h s1"
    using assms(2) invoked(3) by (simp add: keeps_cancelled_def)
  moreover have "item_id si \<noteq> h"
    using getNext_loop_Some [OF invoked(1)] peek_mem [of comparer q' si] sub assms(3)
    by (auto simp: cancelled_in_def)
  ultimately show ?thesis using invoked(4) by simp
qed

lemma advanceTo_body_cancelled_in:
  assumes "advanceTo_body comparer act time s = (s1, tr1)" "keeps_cancelled h act"
    "cancelled_in h s"
  shows "cancelled_in h s1 \<and> (\<forall>(si, c) \<in> set tr1. item_id si \<noteq> h)"
  using assms(1)
proof (cases rule: advanceTo_body_cases)
  case (idle r q')
  then show ?thesis
    using assms(3) getNext_loop_subset [OF idle(1)] by (auto simp: cancelled_in_def)
next
  case (invoked si q' c)
  have sub: "set q' \<subseteq> set (queue s)" using getNext_loop_subset [OF invoked(1)] .
  have "cancelled_in h (s\<lparr>clock := c, queue := remove si q'\<rparr>)"
    using assms(3) sub by (auto simp: cancelled_in_def set_remove)
  then have "cancelled_in h s1"
    using assms(2) invoked(4) by (simp add: keeps_cancelled_def)
  moreover have "item_id si \<noteq> h"
    using getNext_loop_Some [OF invoked(1)] peek_mem [of comparer q' si] sub assms(3)
    by (auto simp: cancelled_in_def)
  ultimately show ?thesis using invoked(5) by simp
qed

lemma start_loop_cancelled_in:
  "start_loop comparer act s = Some (s', tr) \<Longrightarrow> keeps_cancelled h act \<Longrightarrow> cancelled_in h s
     \<Longrightarrow> \<forall>(si, c) \<in> set tr. item_id si \<noteq> h"
proof (induction rule: start_loop_induct)
  case (exit s s1 tr1)
  then show ?case using start_body_cancelled_in [OF exit(1,3,4)] by simp
next
  case (continue s s1 tr1 s2 tr2)
  then show ?case using start_body_cancelled_in [OF continue(1,5,6)] by auto
qed

lemma advanceTo_loop_cancelled_in:
  "advanceTo_loop comparer act time s = Some (s', tr) \<Longrightarrow> keeps_cancelled h act
     \<Longrightarrow> cancelled_in h s \<Longrightarrow> \<forall>(si, c) \<in> set tr. item_id si \<noteq> h"
proof (induction rule: advanceTo_loop_induct)
  case (exit s s1 tr1)
  then show ?case using advanceTo_body_cancelled_in [OF exit(1,3,4)] by simp
next
  case (continue s s1 tr1 s2 tr2)
  then show ?case using advanceTo_body_cancelled_in [OF continue(1,5,6)] by auto
qed

subsection \<open>What getNext discards, and when the loop of start ends\<close>

lemma getNext_loop_dropped:
  "getNext_loop comparer q = (r, q') \<Longrightarrow> total_order_comparer comparer
     \<Longrightarrow> distinct (map item_id q) \<Longrightarrow> x \<in> set q \<Longrightarrow> x \<notin> set q'
     \<Longrightarrow> isCancelled x \<and> (\<forall>y \<in> set q'. compareTo comparer x y \<le> 0)"
proof (induction comparer q rule: getNext_loop.induct)
  case (1 comparer q)
  show ?case
  proof (cases "peek comparer q")
    case None
    then show ?thesis using "1.prems" by (simp add: getNext_loop.simps split: if_splits)
  next
    case (Some m)
    then have ne: "q \<noteq> []" by (auto simp: peek_def)
    show ?thesis
    proof (cases "isCancelled m")
      case True
      then have *: "getNext_loop comparer (dequeue comparer q) = (r, q')"
        using "1.prems" Some ne by (simp add: getNext_loop.simps [of comparer q])
      have m: "m \<in> set q" using Some by (rule peek_mem)
      have deq: "dequeue comparer q = remove m q" using Some by (simp add: dequeue_def)
      have dist: "distinct (map item_id (dequeue comparer q))"
        using "1.prems"(3) deq by (simp add: distinct_remove)
      show ?thesis
      proof (cases "x \<in> set (dequeue comparer q)")
        case True
        then show ?thesis
          using "1.IH" [OF _ Some \<open>isCancelled m\<close> * "1.prems"(2) dist True "1.prems"(5)] ne
          by simp
      next
        case False
        then have "item_id x = item_id m" using "1.prems"(4) deq by (simp add: set_remove)
        then have xm: "x = m"
          using "1.prems"(3,4) m by (auto simp: distinct_map inj_on_def)
        have "set q' \<subseteq> set q"
          using getNext_loop_subset [OF *] deq by (auto simp: set_remove)
        then have "\<forall>y \<in> set q'. compareTo comparer m y \<le> 0"
          using peek_least [OF "1.prems"(2) Some] by blast
        then show ?thesis using xm \<open>isCancelled m\<close> by simp
      qed
    next
      case False
      then show ?thesis using "1.prems" Some ne by (simp add: getNext_loop.simps [of comparer q])
    qed
  qed
qed

lemma start_loop_exit_reason:
  "start_loop comparer act s = Some (s', tr) \<Longrightarrow> isEnabled s \<Longrightarrow>
     \<not> isEnabled s' \<and>
     (queue s' = [] \<or>
      (tr \<noteq> [] \<and> (\<exists>sk. isEnabled sk \<and> s' = act (payload (fst (last tr))) sk)))"
proof (induction rule: start_loop_induct)
  case (exit s s1 tr1)
  from exit(1) show ?case
  proof (cases rule: start_body_cases)
    case (idle q')
    then show ?thesis using getNext_loop_None [OF idle(1)] by simp
  next
    case (invoked si q' c)
    have "isEnabled (s\<lparr>clock := c, queue := remove si q'\<rparr>)" using exit(3) by simp
    then have "\<exists>sk. isEnabled sk \<and> s1 = act (payload si) sk"
      using invoked(3) by blast
    then show ?thesis using invoked(4) exit(2) by simp
  qed
next
  case (continue s s1 tr1 s2 tr2)
  then show ?case by auto
qed

lemma start_loop_drains:
  assumes "start_loop comparer act s = Some (s', tr)" "isEnabled s" "never_stops act"
  shows "\<not> isEnabled s' \<and> queue s' = []"
proof -
  have "\<not> (\<exists>sk. isEnabled sk \<and> s' = act (payload (fst (last tr))) sk \<and> \<not> isEnabled s')"
    using assms(3) by (auto simp: never_stops_def)
  then show ?thesis using start_loop_exit_reason [OF assms(1,2)] by auto
qed

subsection \<open>The example run\<close>

lemma threeItems_eq:
  "threeItems =
     \<lparr>clock = 0, isEnabled = False,
      queue = [\<lparr>item_id = 0, dueTime = 1, payload = Some 1, isCancelled = False\<rparr>,
               \<lparr>item_id = 1, dueTime = 2, payload = None, isCancelled = False\<rparr>,
               \<lparr>item_id = 2, dueTime = 2, payload = None, isCancelled = True\<rparr>],
      nextSequence = 3, world = ()\<rparr>"
  by (simp add: threeItems_def dispose_def scheduleRelativeWithState_def
      scheduleAbsoluteWithState_def VirtualTimeScheduler_def enqueue_def numberAdd_def)

lemma threeItems_start:
  "start numberComparer cancelling threeItems =
     Some (\<lparr>clock = 1, isEnabled = False, queue = [], nextSequence = 3, world = ()\<rparr>,
           [(\<lparr>item_id = 0, dueTime = 1, payload = Some 1, isCancelled = False\<rparr>, 1)])"
  by code_simp

lemma never_stops_cancelling: "never_stops cancelling"
  by (simp add: never_stops_def cancelling_def dispose_def split: option.splits)

lemma keeps_cancelled_cancelling: "keeps_cancelled h cancelling"
proof -
  have "cancelled_in h (dispose k s)" if "cancelled_in h s" for k and s :: "('a, nat option, 'b) scheduler"
  proof -
    have "isCancelled x" if x: "x \<in> set (queue (dispose k s))" "item_id x = h" for x
    proof -
      have "x \<in> (\<lambda>y. if item_id y = k then y\<lparr>isCancelled := True\<rparr> else y) ` set (queue s)"
        using x(1) by (simp add: dispose_def)
      then obtain y where y: "y \<in> set (queue s)"
        "x = (if item_id y = k then y\<lparr>isCancelled := True\<rparr> else y)"
        by (elim imageE) simp
      show ?thesis
      proof (cases "item_id y = k")
        case True
        then show ?thesis using y(2) by simp
      next
        case False
        then show ?thesis using y x(2) \<open>cancelled_in h s\<close> by (simp add: cancelled_in_def)
      qed
    qed
    moreover have "nextSequence (dispose k s) = nextSequence s" by (simp add: dispose_def)
    ultimately show ?thesis using \<open>cancelled_in h s\<close> by (simp add: cancelled_in_def)
  qed
  then show ?thesis by (simp add: keeps_cancelled_def cancelling_def split: option.splits)
qed

lemma getNext_loop_earliest:
  assumes "getNext_loop comparer q = (Some si, q')" "total_order_comparer comparer"
    "distinct (map item_id q)" "x \<in> set q" "\<not> isCancelled x"
  shows "compareTo comparer si x \<le> 0"
proof -
  have "x \<in> set q'" using getNext_loop_keeps [OF assms(1,3,4,5)] .
  moreover have "peek comparer q' = Some si" using getNext_loop_Some [OF assms(1)] by simp
  ultimately show ?thesis using peek_least [OF assms(2)] by blast
qed

lemma getNext_loop_all_cancelled:
  assumes "getNext_loop comparer q = (None, q')" "distinct (map item_id q)" "x \<in> set q"
  shows "isCancelled x"
proof (rule ccontr)
  assume "\<not> isCancelled x"
  then have "x \<in> set q'" using getNext_loop_keeps [OF assms(1,2,3)] by simp
  then show False using getNext_loop_None [OF assms(1)] by simp
qed

lemma advanceTo_Inr_cases [consumes 1, case_names noop ran]:
  assumes "advanceTo comparer act time s = Some (Inr (s', tr))"
  obtains (noop) "s' = s" "tr = []"
  | (ran) s1 where "\<not> isEnabled s" "comparer (clock s) time < 0"
      "advanceTo_loop comparer act time (s\<lparr>isEnabled := True\<rparr>) = Some (s1, tr)"
      "s' = s1\<lparr>clock := time\<rparr>"
proof (cases "comparer (clock s) time < 0 \<and> \<not> isEnabled s")
  case False
  then have "s' = s \<and> tr = []"
    using assms by (auto simp: advanceTo_def Let_def split: if_splits)
  then show ?thesis using noop by simp
next
  case True
  then obtain s1 where
    "advanceTo_loop comparer act time (s\<lparr>isEnabled := True\<rparr>) = Some (s1, tr)"
    "s' = s1\<lparr>clock := time\<rparr>"
    using assms by (auto simp: advanceTo_def Let_def bind_eq_Some_conv)
  then show ?thesis using True ran by simp
qed

subsection \<open>The clock during a run\<close>

lemma jump_forward:
  assumes "total_order_comparer comparer"
  shows "comparer a (if comparer d a > 0 then d else a) \<le> 0"
  using comparer_flip [OF assms, of d a] comparer_refl [OF assms, of a] by simp

lemma start_body_clock:
  assumes "start_body comparer act s = (s1, tr1)" "total_order_comparer comparer"
    "never_rewinds comparer act"
  shows "comparer (clock s) (clock s1) \<le> 0 \<and>
    (\<forall>(si, c) \<in> set tr1. comparer (clock s) c \<le> 0 \<and> comparer c (clock s1) \<le> 0)"
  using assms(1)
proof (cases rule: start_body_cases)
  case (idle q')
  then show ?thesis using comparer_refl [OF assms(2)] by simp
next
  case (invoked si q' c)
  have 1: "comparer (clock s) c \<le> 0" unfolding invoked(2) using jump_forward [OF assms(2)] .
  have 2: "comparer c (clock s1) \<le> 0"
    using assms(3) [unfolded never_rewinds_def, rule_format,
        of "s\<lparr>clock := c, queue := remove si q'\<rparr>" "payload si"] invoked(3) by simp
  show ?thesis using 1 2 comparer_trans [OF assms(2) 1 2] invoked(4) by simp
qed

lemma advanceTo_body_clock:
  assumes "advanceTo_body comparer act time s = (s1, tr1)" "total_order_comparer comparer"
    "never_rewinds comparer act"
  shows "comparer (clock s) (clock s1) \<le> 0 \<and>
    (\<forall>(si, c) \<in> set tr1. comparer (clock s) c \<le> 0 \<and> comparer c (clock s1) \<le> 0)"
  using assms(1)
proof (cases rule: advanceTo_body_cases)
  case (idle r q')
  then show ?thesis using comparer_refl [OF assms(2)] by simp
next
  case (invoked si q' c)
  have 1: "comparer (clock s) c \<le> 0" unfolding invoked(3) using jump_forward [OF assms(2)] .
  have 2: "comparer c (clock s1) \<le> 0"
    using assms(3) [unfolded never_rewinds_def, rule_format,
        of "s\<lparr>clock := c, queue := remove si q'\<rparr>" "payload si"] invoked(4) by simp
  show ?thesis using 1 2 comparer_trans [OF assms(2) 1 2] invoked(5) by simp
qed

lemma clocks_between_append:
  assumes t: "total_order_comparer comparer"
    and 1: "comparer a b \<le> 0" "\<forall>(si, c) \<in> set tr1. comparer a c \<le> 0 \<and> comparer c b \<le> 0"
      "length tr1 \<le> 1"
    and 2: "comparer b d \<le> 0" "\<forall>(si, c) \<in> set tr2. comparer b c \<le> 0 \<and> comparer c d \<le> 0"
      "clocks_ascend comparer tr2"
  shows "comparer a d \<le> 0 \<and>
    (\<forall>(si, c) \<in> set (tr1 @ tr2). comparer a c \<le> 0 \<and> comparer c d \<le> 0) \<and>
    clocks_ascend comparer (tr1 @ tr2)"
proof -
  have ad: "comparer a d \<le> 0" using comparer_trans [OF t 1(1) 2(1)] .
  have l: "comparer a c \<le> 0 \<and> comparer c d \<le> 0" if "(si, c) \<in> set tr1" for si c
    using that 1(2) comparer_trans [OF t _ 2(1), of c] by auto
  have r: "comparer a c \<le> 0 \<and> comparer c d \<le> 0" if "(si, c) \<in> set tr2" for si c
    using that 2(2) comparer_trans [OF t 1(1), of c] by auto
  have x: "comparer (snd p) (snd q) \<le> 0" if "p \<in> set tr1" "q \<in> set tr2" for p q
  proof -
    have "comparer (snd p) b \<le> 0" using that(1) 1(2) by (cases p) auto
    moreover have "comparer b (snd q) \<le> 0" using that(2) 2(2) by (cases q) auto
    ultimately show ?thesis using comparer_trans [OF t] by blast
  qed
  have s1: "sorted_wrt (\<lambda>a b. comparer (snd a) (snd b) \<le> 0) tr1"
    using 1(3) by (cases tr1) simp_all
  have "clocks_ascend comparer (tr1 @ tr2)"
    using s1 2(3) x by (simp add: clocks_ascend_def sorted_wrt_append)
  then show ?thesis using ad l r by auto
qed

lemma start_body_trace_length:
  assumes "start_body comparer act s = (s1, tr1)"
  shows "length tr1 \<le> 1"
  using assms by (cases rule: start_body_cases) simp_all

lemma advanceTo_body_trace_length:
  assumes "advanceTo_body comparer act time s = (s1, tr1)"
  shows "length tr1 \<le> 1"
  using assms by (cases rule: advanceTo_body_cases) simp_all

lemma clocks_ascend_short: "length tr \<le> 1 \<Longrightarrow> clocks_ascend comparer tr"
  by (cases tr) (simp_all add: clocks_ascend_def)

lemma start_loop_clock:
  "start_loop comparer act s = Some (s', tr) \<Longrightarrow> total_order_comparer comparer
     \<Longrightarrow> never_rewinds comparer act
     \<Longrightarrow> comparer (clock s) (clock s') \<le> 0 \<and>
         (\<forall>(si, c) \<in> set tr. comparer (clock s) c \<le> 0 \<and> comparer c (clock s') \<le> 0) \<and>
         clocks_ascend comparer tr"
proof (induction rule: start_loop_induct)
  case (exit s s1 tr1)
  then show ?case
    using start_body_clock [OF exit(1,3,4)]
      clocks_ascend_short [OF start_body_trace_length [OF exit(1)], of comparer] by simp
next
  case (continue s s1 tr1 s2 tr2)
  have b: "comparer (clock s) (clock s1) \<le> 0"
    "\<forall>(si, c) \<in> set tr1. comparer (clock s) c \<le> 0 \<and> comparer c (clock s1) \<le> 0"
    using start_body_clock [OF continue(1,5,6)] by simp_all
  have i: "comparer (clock s1) (clock s2) \<le> 0"
    "\<forall>(si, c) \<in> set tr2. comparer (clock s1) c \<le> 0 \<and> comparer c (clock s2) \<le> 0"
    "clocks_ascend comparer tr2"
    using continue(4) [OF continue(5,6)] by simp_all
  show ?case
    using clocks_between_append [OF continue(5) b start_body_trace_length [OF continue(1)] i] .
qed

lemma advanceTo_loop_clock:
  "advanceTo_loop comparer act time s = Some (s', tr) \<Longrightarrow> total_order_comparer comparer
     \<Longrightarrow> never_rewinds comparer act
     \<Longrightarrow> comparer (clock s) (clock s') \<le> 0 \<and>
         (\<forall>(si, c) \<in> set tr. comparer (clock s) c \<le> 0 \<and> comparer c (clock s') \<le> 0) \<and>
         clocks_ascend comparer tr"
proof (induction rule: advanceTo_loop_induct)
  case (exit s s1 tr1)
  then show ?case
    using advanceTo_body_clock [OF exit(1,3,4)]
      clocks_ascend_short [OF advanceTo_body_trace_length [OF exit(1)], of comparer] by simp
next
  case (continue s s1 tr1 s2 tr2)
  have b: "comparer (clock s) (clock s1) \<le> 0"
    "\<forall>(si, c) \<in> set tr1. comparer (clock s) c \<le> 0 \<and> comparer c (clock s1) \<le> 0"
    using advanceTo_body_clock [OF continue(1,5,6)] by simp_all
  have i: "comparer (clock s1) (clock s2) \<le> 0"
    "\<forall>(si, c) \<in> set tr2. comparer (clock s1) c \<le> 0 \<and> comparer c (clock s2) \<le> 0"
    "clocks_ascend comparer tr2"
    using continue(4) [OF continue(5,6)] by simp_all
  show ?case
    using clocks_between_append [OF continue(5) b advanceTo_body_trace_length [OF continue(1)] i] .
qed

lemma advanceTo_body_bound:
  assumes "advanceTo_body comparer act time s = (s1, tr1)" "stays_within comparer time act"
    "comparer (clock s) time \<le> 0"
  shows "comparer (clock s1) time \<le> 0"
  using assms(1)
proof (cases rule: advanceTo_body_cases)
  case (idle r q')
  then show ?thesis using assms(3) by simp
next
  case (invoked si q' c)
  have "comparer c time \<le> 0" using invoked(2,3) assms(3) by (simp split: if_splits)
  then have "comparer (clock (s\<lparr>clock := c, queue := remove si q'\<rparr>)) time \<le> 0" by simp
  then have "comparer (clock (act (payload si) (s\<lparr>clock := c, queue := remove si q'\<rparr>))) time \<le> 0"
    using assms(2) unfolding stays_within_def by blast
  then show ?thesis using invoked(4) by simp
qed

lemma advanceTo_loop_bound:
  "advanceTo_loop comparer act time s = Some (s', tr) \<Longrightarrow> stays_within comparer time act
     \<Longrightarrow> comparer (clock s) time \<le> 0 \<Longrightarrow> comparer (clock s') time \<le> 0"
proof (induction rule: advanceTo_loop_induct)
  case (exit s s1 tr1)
  then show ?case using advanceTo_body_bound [OF exit(1,3,4)] by simp
next
  case (continue s s1 tr1 s2 tr2)
  then show ?case using advanceTo_body_bound [OF continue(1,5,6)] by simp
qed

lemma keeps_clock_stays_within: "keeps_clock act \<Longrightarrow> stays_within comparer time act"
  by (simp add: keeps_clock_def stays_within_def)

lemma never_rewinds_sleeping: "never_rewinds numberComparer sleeping"
  by (simp add: never_rewinds_def sleeping_def sleep_def numberAdd_def numberComparer_def Let_def)

lemma keeps_clock_never_rewinds:
  "total_order_comparer comparer \<Longrightarrow> keeps_clock act \<Longrightarrow> never_rewinds comparer act"
  by (simp add: keeps_clock_def never_rewinds_def comparer_refl)

lemma keeps_clock_cancelling: "keeps_clock cancelling"
  by (simp add: keeps_clock_def cancelling_def dispose_def split: option.splits)

lemma threeItems_advanceTo_loop:
  "advanceTo_loop numberComparer cancelling 5 (threeItems\<lparr>isEnabled := True\<rparr>) =
     Some (\<lparr>clock = 1, isEnabled = False, queue = [], nextSequence = 3, world = ()\<rparr>,
           [(\<lparr>item_id = 0, dueTime = 1, payload = Some 1, isCancelled = False\<rparr>, 1)])"
  by code_simp

lemma threeItems_advanceTo:
  "advanceTo numberComparer cancelling 5 threeItems =
     Some (Inr (\<lparr>clock = 5, isEnabled = False, queue = [], nextSequence = 3, world = ()\<rparr>,
           [(\<lparr>item_id = 0, dueTime = 1, payload = Some 1, isCancelled = False\<rparr>, 1)]))"
  by code_simp

subsection \<open>Every item that is due is invoked\<close>

lemma wellformed_step:
  assumes "wellformed s" "getNext_loop comparer (queue s) = (r, q')"
  shows "wellformed (s\<lparr>clock := c, queue := remove si q'\<rparr>)"
proof -
  have "distinct (map item_id q')"
    using getNext_loop_distinct [OF assms(2)] assms(1) by (simp add: wellformed_def)
  then have "distinct (map item_id (remove si q'))" by (rule distinct_remove)
  moreover have "set (remove si q') \<subseteq> set (queue s)"
    using getNext_loop_subset [OF assms(2)] by (auto simp: set_remove)
  ultimately show ?thesis using assms(1) by (auto simp: wellformed_def)
qed

lemma kept_after_step:
  assumes "wellformed s" "getNext_loop comparer (queue s) = (Some si, q')"
    "x \<in> set (queue s)" "\<not> isCancelled x" "x \<noteq> si"
  shows "x \<in> set (remove si q')"
proof -
  have d: "distinct (map item_id (queue s))" using assms(1) by (simp add: wellformed_def)
  have x: "x \<in> set q'" using getNext_loop_keeps [OF assms(2) d assms(3,4)] .
  have "si \<in> set q'" using getNext_loop_Some [OF assms(2)] peek_mem by blast
  moreover have "distinct (map item_id q')" using getNext_loop_distinct [OF assms(2) d] .
  ultimately have "item_id x \<noteq> item_id si"
    using x assms(5) by (auto simp: distinct_map inj_on_def)
  then show ?thesis using x by (simp add: set_remove)
qed

lemma start_body_covers:
  assumes body: "start_body comparer act s = (s1, tr1)"
    and rely: "never_stops act" "keeps_queued act"
    and inv: "wellformed s" "isEnabled s"
    and x: "x \<in> set (queue s)" "\<not> isCancelled x"
  shows "x \<in> fst ` set tr1 \<or> (isEnabled s1 \<and> wellformed s1 \<and> x \<in> set (queue s1))"
  using body
proof (cases rule: start_body_cases)
  case (idle q')
  have "x \<in> set q'"
    using getNext_loop_keeps [OF idle(1) _ x] inv(1) by (simp add: wellformed_def)
  then show ?thesis using getNext_loop_None [OF idle(1)] by simp
next
  case (invoked si q' c)
  let ?z = "s\<lparr>clock := c, queue := remove si q'\<rparr>"
  show ?thesis
  proof (cases "x = si")
    case True
    then show ?thesis using invoked(4) by simp
  next
    case False
    have "x \<in> set (queue ?z)" using kept_after_step [OF inv(1) invoked(1) x False] by simp
    then have 1: "x \<in> set (queue s1)"
      using rely(2) invoked(3) unfolding keeps_queued_def by blast
    have "wellformed ?z" using wellformed_step [OF inv(1) invoked(1)] .
    then have 2: "wellformed s1" using rely(2) invoked(3) unfolding keeps_queued_def by blast
    have "isEnabled ?z" using inv(2) by simp
    then have 3: "isEnabled s1" using rely(1) invoked(3) unfolding never_stops_def by blast
    show ?thesis using 1 2 3 by simp
  qed
qed

lemma advanceTo_body_covers:
  assumes body: "advanceTo_body comparer act time s = (s1, tr1)"
    and t: "total_order_comparer comparer"
    and rely: "never_stops act" "keeps_queued act"
    and inv: "wellformed s" "isEnabled s"
    and x: "x \<in> set (queue s)" "\<not> isCancelled x" "comparer (dueTime x) time \<le> 0"
  shows "x \<in> fst ` set tr1 \<or> (isEnabled s1 \<and> wellformed s1 \<and> x \<in> set (queue s1))"
  using body
proof (cases rule: advanceTo_body_cases)
  case (idle r q')
  have d: "distinct (map item_id (queue s))" using inv(1) by (simp add: wellformed_def)
  have xq: "x \<in> set q'" using getNext_loop_keeps [OF idle(1) d x(1,2)] .
  show ?thesis
  proof (cases r)
    case None
    then show ?thesis using getNext_loop_None [of comparer "queue s" q'] idle(1) xq by simp
  next
    case (Some si)
    then have "compareTo comparer si x \<le> 0"
      using getNext_loop_earliest [OF _ t d x(1,2), of si q'] idle(1) by simp
    then have "comparer (dueTime si) (dueTime x) \<le> 0" by (rule compareTo_due)
    then have "comparer (dueTime si) time \<le> 0" using comparer_trans [OF t _ x(3)] by blast
    then show ?thesis using idle(2) [OF Some] by simp
  qed
next
  case (invoked si q' c)
  let ?z = "s\<lparr>clock := c, queue := remove si q'\<rparr>"
  show ?thesis
  proof (cases "x = si")
    case True
    then show ?thesis using invoked(5) by simp
  next
    case False
    have "x \<in> set (queue ?z)"
      using kept_after_step [OF inv(1) invoked(1) x(1,2) False] by simp
    then have 1: "x \<in> set (queue s1)"
      using rely(2) invoked(4) unfolding keeps_queued_def by blast
    have "wellformed ?z" using wellformed_step [OF inv(1) invoked(1)] .
    then have 2: "wellformed s1" using rely(2) invoked(4) unfolding keeps_queued_def by blast
    have "isEnabled ?z" using inv(2) by simp
    then have 3: "isEnabled s1" using rely(1) invoked(4) unfolding never_stops_def by blast
    show ?thesis using 1 2 3 by simp
  qed
qed

lemma start_loop_covers:
  "start_loop comparer act s = Some (s', tr) \<Longrightarrow> never_stops act \<Longrightarrow> keeps_queued act
     \<Longrightarrow> wellformed s \<Longrightarrow> isEnabled s \<Longrightarrow> x \<in> set (queue s) \<Longrightarrow> \<not> isCancelled x
     \<Longrightarrow> x \<in> fst ` set tr"
proof (induction rule: start_loop_induct)
  case (exit s s1 tr1)
  then show ?case using start_body_covers [OF exit(1,3,4,5,6,7,8)] by simp
next
  case (continue s s1 tr1 s2 tr2)
  have "x \<in> fst ` set tr1 \<or> (isEnabled s1 \<and> wellformed s1 \<and> x \<in> set (queue s1))"
    using start_body_covers [OF continue(1,5,6,7,8,9,10)] .
  then show ?case using continue(4) [OF continue(5,6) _ _ _ continue(10)] by auto
qed

lemma advanceTo_loop_covers:
  "advanceTo_loop comparer act time s = Some (s', tr) \<Longrightarrow> total_order_comparer comparer
     \<Longrightarrow> never_stops act \<Longrightarrow> keeps_queued act
     \<Longrightarrow> wellformed s \<Longrightarrow> isEnabled s \<Longrightarrow> x \<in> set (queue s) \<Longrightarrow> \<not> isCancelled x
     \<Longrightarrow> comparer (dueTime x) time \<le> 0 \<Longrightarrow> x \<in> fst ` set tr"
proof (induction rule: advanceTo_loop_induct)
  case (exit s s1 tr1)
  then show ?case using advanceTo_body_covers [OF exit(1,3,4,5,6,7,8,9,10)] by simp
next
  case (continue s s1 tr1 s2 tr2)
  have "x \<in> fst ` set tr1 \<or> (isEnabled s1 \<and> wellformed s1 \<and> x \<in> set (queue s1))"
    using advanceTo_body_covers [OF continue(1,5,6,7,8,9,10,11,12)] .
  then show ?case using continue(4) [OF continue(5,6,7) _ _ _ continue(11,12)] by auto
qed

subsection \<open>A run ends when the actions add no work\<close>

lemma start_loop_returns:
  assumes "\<forall>p z. length (queue (act p z)) \<le> length (queue z)"
  shows "\<exists>r. start_loop comparer act s = Some r"
proof (induction s rule: measure_induct_rule [where f = "\<lambda>s. length (queue s)"])
  case (less s)
  obtain s1 tr1 where body: "start_body comparer act s = (s1, tr1)"
    by (cases "start_body comparer act s")
  show ?case
  proof (cases "isEnabled s1")
    case False
    then show ?thesis using start_loop_exit [OF body] by simp
  next
    case True
    from body have "length (queue s1) < length (queue s)"
    proof (cases rule: start_body_cases)
      case (idle q')
      then show ?thesis using True by simp
    next
      case (invoked si q' c)
      have "si \<in> set q'" using getNext_loop_Some [OF invoked(1)] peek_mem by blast
      then have "length (remove si q') < length (queue s)"
        using length_remove_less [of si q'] getNext_loop_length [OF invoked(1)] by simp
      moreover have "length (queue s1) \<le> length (remove si q')"
        using assms [rule_format, of "payload si" "s\<lparr>clock := c, queue := remove si q'\<rparr>"]
          invoked(3) by simp
      ultimately show ?thesis by simp
    qed
    then obtain r where "start_loop comparer act s1 = Some r" using less by blast
    then show ?thesis using start_loop_continue [OF body True] by (cases r) simp
  qed
qed

lemma advanceTo_loop_returns:
  assumes "\<forall>p z. length (queue (act p z)) \<le> length (queue z)"
  shows "\<exists>r. advanceTo_loop comparer act time s = Some r"
proof (induction s rule: measure_induct_rule [where f = "\<lambda>s. length (queue s)"])
  case (less s)
  obtain s1 tr1 where body: "advanceTo_body comparer act time s = (s1, tr1)"
    by (cases "advanceTo_body comparer act time s")
  show ?case
  proof (cases "isEnabled s1")
    case False
    then show ?thesis using advanceTo_loop_exit [OF body] by simp
  next
    case True
    from body have "length (queue s1) < length (queue s)"
    proof (cases rule: advanceTo_body_cases)
      case (idle r q')
      then show ?thesis using True by simp
    next
      case (invoked si q' c)
      have "si \<in> set q'" using getNext_loop_Some [OF invoked(1)] peek_mem by blast
      then have "length (remove si q') < length (queue s)"
        using length_remove_less [of si q'] getNext_loop_length [OF invoked(1)] by simp
      moreover have "length (queue s1) \<le> length (remove si q')"
        using assms [rule_format, of "payload si" "s\<lparr>clock := c, queue := remove si q'\<rparr>"]
          invoked(4) by simp
      ultimately show ?thesis by simp
    qed
    then obtain r where "advanceTo_loop comparer act time s1 = Some r" using less by blast
    then show ?thesis using advanceTo_loop_continue [OF body True] by (cases r) simp
  qed
qed

lemma leaves_scheduler_relies:
  assumes "leaves_scheduler act"
  shows "never_stops act" "keeps_queued act" "keeps_clock act"
    "\<forall>p z. length (queue (act p z)) \<le> length (queue z)"
  using assms
  by (simp_all add: leaves_scheduler_def never_stops_def keeps_queued_def keeps_clock_def
      wellformed_def)

lemma leaves_scheduler_noAction: "leaves_scheduler noAction"
  by (simp add: leaves_scheduler_def noAction_def)

lemma wellformed_threeItems: "wellformed threeItems"
  by (simp add: wellformed_def threeItems_eq)

lemma threeItems_advanceTo_idle:
  "advanceTo numberComparer noAction 7 threeItems =
     Some (Inr (\<lparr>clock = 7, isEnabled = False, queue = [], nextSequence = 3, world = ()\<rparr>,
           [(\<lparr>item_id = 0, dueTime = 1, payload = Some 1, isCancelled = False\<rparr>, 1),
            (\<lparr>item_id = 1, dueTime = 2, payload = None, isCancelled = False\<rparr>, 2)]))"
  by code_simp

subsection \<open>The order of a run whose actions leave the scheduler alone\<close>

lemma later_later:
  assumes t: "total_order_comparer comparer" and le: "comparer d1 d2 \<le> 0"
  shows "(if comparer d2 (if comparer d1 a > 0 then d1 else a) > 0 then d2
          else (if comparer d1 a > 0 then d1 else a))
       = (if comparer d2 a > 0 then d2 else a)"
proof (cases "comparer d1 a > 0")
  case False
  then show ?thesis by simp
next
  case True
  then have "comparer a d1 < 0" using comparer_flip [OF t] by blast
  then have "comparer a d2 < 0" using comparer_less_le_trans [OF t _ le] by blast
  then have 1: "comparer d2 a > 0" using comparer_flip [OF t] by blast
  have 2: "d1 = d2" if "\<not> comparer d2 d1 > 0"
  proof -
    have "\<not> comparer d1 d2 < 0" using that comparer_flip [OF t, of d2 d1] by simp
    then have "comparer d1 d2 = 0" using le by simp
    then show ?thesis using comparer_eq [OF t] by blast
  qed
  show ?thesis using True 1 2 by auto
qed

lemma start_loop_order:
  "start_loop comparer act s = Some (s', tr) \<Longrightarrow> total_order_comparer comparer
     \<Longrightarrow> leaves_scheduler act
     \<Longrightarrow> (\<forall>(si, c) \<in> set tr. si \<in> set (queue s) \<and>
            c = (if comparer (dueTime si) (clock s) > 0 then dueTime si else clock s)) \<and>
         sorted_wrt (\<lambda>a b. compareTo comparer a b < 0) (map fst tr)"
proof (induction rule: start_loop_induct)
  case (exit s s1 tr1)
  from exit(1) show ?case
  proof (cases rule: start_body_cases)
    case (idle q')
    then show ?thesis by simp
  next
    case (invoked si q' c)
    have "si \<in> set (queue s)"
      using getNext_loop_Some [OF invoked(1)] peek_mem getNext_loop_subset [OF invoked(1)]
      by blast
    then show ?thesis using invoked(2,4) by simp
  qed
next
  case (continue s s1 tr1 s2 tr2)
  note t = continue(5) and l = continue(6)
  from continue(1) show ?case
  proof (cases rule: start_body_cases)
    case (idle q')
    then show ?thesis using continue(2) by simp
  next
    case (invoked si q' c)
    have pk: "peek comparer q' = Some si" using getNext_loop_Some [OF invoked(1)] by simp
    have sub: "set q' \<subseteq> set (queue s)" using getNext_loop_subset [OF invoked(1)] .
    have si: "si \<in> set (queue s)" using pk peek_mem sub by blast
    have q1: "queue s1 = remove si q'" and c1: "clock s1 = c"
      using l invoked(3) by (simp_all add: leaves_scheduler_def)
    have ih: "\<forall>(x, d) \<in> set tr2. x \<in> set (queue s1) \<and>
            d = (if comparer (dueTime x) (clock s1) > 0 then dueTime x else clock s1)"
      and srt: "sorted_wrt (\<lambda>a b. compareTo comparer a b < 0) (map fst tr2)"
      using continue(4) [OF t l] by simp_all
    have each: "x \<in> set (queue s) \<and> compareTo comparer si x < 0 \<and>
        d = (if comparer (dueTime x) (clock s) > 0 then dueTime x else clock s)"
      if xd: "(x, d) \<in> set tr2" for x d
    proof -
      have x: "x \<in> set q'" "item_id x \<noteq> item_id si"
        using ih xd q1 by (auto simp: set_remove)
      have le: "compareTo comparer si x \<le> 0" using peek_least [OF t pk x(1)] .
      have "compareTo comparer si x \<noteq> 0" using compareTo_zero [OF t, of si x] x(2) by auto
      then have less: "compareTo comparer si x < 0" using le by simp
      have due: "comparer (dueTime si) (dueTime x) \<le> 0" using le by (rule compareTo_due)
      have "d = (if comparer (dueTime x) c > 0 then dueTime x else c)"
        using ih xd c1 by auto
      then have "d = (if comparer (dueTime x) (clock s) > 0 then dueTime x else clock s)"
        unfolding invoked(2) using later_later [OF t due, of "clock s"] by simp
      then show ?thesis using x(1) sub less by blast
    qed
    have "\<forall>(x, d) \<in> set (tr1 @ tr2). x \<in> set (queue s) \<and>
            d = (if comparer (dueTime x) (clock s) > 0 then dueTime x else clock s)"
      using each si invoked(2,4) by auto
    moreover have "sorted_wrt (\<lambda>a b. compareTo comparer a b < 0) (map fst (tr1 @ tr2))"
      using each srt invoked(4) by auto
    ultimately show ?thesis by simp
  qed
qed

lemma scheduleAll_fields:
  "clock (scheduleAll add requests s) = clock s \<and>
   isEnabled (scheduleAll add requests s) = isEnabled s \<and>
   world (scheduleAll add requests s) = world s \<and>
   nextSequence (scheduleAll add requests s) = nextSequence s + length requests \<and>
   queue (scheduleAll add requests s) =
     queue s @ map (\<lambda>(k, (p, d)). \<lparr>item_id = k, dueTime = add (clock s) d, payload = p,
                                   isCancelled = False\<rparr>)
                (enumerate (nextSequence s) requests)"
proof (induction requests arbitrary: s)
  case Nil
  then show ?case by (simp add: scheduleAll_def)
next
  case (Cons x xs)
  obtain p d where x: "x = (p, d)" by (cases x)
  let ?s1 = "snd (scheduleRelativeWithState add p d s)"
  have s1: "clock ?s1 = clock s" "isEnabled ?s1 = isEnabled s" "world ?s1 = world s"
    "nextSequence ?s1 = Suc (nextSequence s)"
    "queue ?s1 = queue s @ [\<lparr>item_id = nextSequence s, dueTime = add (clock s) d, payload = p,
                             isCancelled = False\<rparr>]"
    by (simp_all add: scheduleRelativeWithState_def scheduleAbsoluteWithState_def enqueue_def
        Let_def)
  have "scheduleAll add (x # xs) s = scheduleAll add xs ?s1"
    by (simp add: scheduleAll_def x)
  then show ?case using Cons.IH [of ?s1] s1 by (simp add: x)
qed

lemma strict_order_fifo:
  assumes t: "total_order_comparer comparer"
    and s: "sorted_wrt (\<lambda>a b. compareTo comparer a b < 0) xs"
    and i: "i < length xs" "j < length xs"
    and e: "dueTime (xs ! i) = dueTime (xs ! j)" "item_id (xs ! i) < item_id (xs ! j)"
  shows "i < j"
proof (rule ccontr)
  assume "\<not> i < j"
  then consider "i = j" | "j < i" by linarith
  then show False
  proof cases
    case 1
    then show ?thesis using e(2) by simp
  next
    case 2
    then have "compareTo comparer (xs ! j) (xs ! i) < 0"
      using s i(1) by (simp add: sorted_wrt_iff_nth_less)
    then show ?thesis using e comparer_refl [OF t] by (simp add: compareTo_def)
  qed
qed

lemma strict_order_distinct:
  assumes t: "total_order_comparer comparer"
    and s: "sorted_wrt (\<lambda>a b. compareTo comparer a b < 0) xs"
  shows "distinct xs"
proof -
  have "\<not> compareTo comparer x x < 0" for x :: "('a, 'b) scheduled_item"
    by (simp add: compareTo_refl [OF t])
  then show ?thesis using s by (induction xs) auto
qed

lemma tens_and_fives_start:
  "start numberComparer noAction
     (scheduleAll numberAdd [(0 :: nat, 10), (1, 5), (2, 5)] (VirtualTimeScheduler 0 ())) =
     Some (\<lparr>clock = 10, isEnabled = False, queue = [], nextSequence = 3, world = ()\<rparr>,
           [(\<lparr>item_id = 1, dueTime = 5, payload = 1, isCancelled = False\<rparr>, 5),
            (\<lparr>item_id = 2, dueTime = 5, payload = 2, isCancelled = False\<rparr>, 5),
            (\<lparr>item_id = 0, dueTime = 10, payload = 0, isCancelled = False\<rparr>, 10)])"
  by code_simp

subsection \<open>The ticks of a periodic chain meet the conditions on actions\<close>

lemma tick_fields:
  "clock (tick add period action p s) = clock s"
  "isEnabled (tick add period action p s) = isEnabled s"
  "set (queue s) \<subseteq> set (queue (tick add period action p s))"
  "nextSequence s \<le> nextSequence (tick add period action p s)"
  "\<forall>x \<in> set (queue (tick add period action p s)).
     x \<in> set (queue s) \<or> (item_id x = nextSequence s \<and> nextSequence s < nextSequence (tick add period action p s))"
  by (auto simp: tick_def scheduleAbsoluteWithState_def enqueue_def Let_def)

lemma wellformed_tick: "wellformed s \<Longrightarrow> wellformed (tick add period action p s)"
  by (auto simp: wellformed_def tick_def scheduleAbsoluteWithState_def enqueue_def Let_def
      less_Suc_eq)

lemma tick_relies:
  "never_stops (tick add period action)"
  "keeps_clock (tick add period action)"
  "keeps_queued (tick add period action)"
  "keeps_cancelled h (tick add period action)"
proof -
  show "never_stops (tick add period action)" by (simp add: never_stops_def tick_fields)
  show "keeps_clock (tick add period action)" by (simp add: keeps_clock_def tick_fields)
  show "keeps_queued (tick add period action)"
    using tick_fields(3) [of _ add period action] wellformed_tick [of _ add period action]
    by (simp add: keeps_queued_def)
  show "keeps_cancelled h (tick add period action)"
  proof -
    have "cancelled_in h (tick add period action p s)" if c: "cancelled_in h s" for p s
    proof -
      have "isCancelled x"
        if "x \<in> set (queue (tick add period action p s))" "item_id x = h" for x
        using tick_fields(5) [of add period action p s] that c by (auto simp: cancelled_in_def)
      moreover have "h < nextSequence (tick add period action p s)"
        using tick_fields(4) [of s add period action p] c by (simp add: cancelled_in_def)
      ultimately show ?thesis by (simp add: cancelled_in_def)
    qed
    then show ?thesis by (simp add: keeps_cancelled_def)
  qed
qed

lemma tick_cancelled: "tick add period action p (cancelPeriodic s) = cancelPeriodic s"
  by (simp add: tick_def cancelPeriodic_def)

lemma tick_next:
  "queue (tick add period action (state, due) (s\<lparr>world := w\<lparr>chainCancelled := False\<rparr>\<rparr>)) =
     queue s @ [\<lparr>item_id = nextSequence s, dueTime = add due period,
                 payload = (action state, add due period), isCancelled = False\<rparr>]"
  by (simp add: tick_def scheduleAbsoluteWithState_def enqueue_def Let_def)

subsection \<open>The loop of start does what the specification says\<close>

lemma start_loop_spec:
  "start_loop comparer act z = Some (z', tr) \<Longrightarrow> spec_start_loop comparer act z z' tr"
proof (induction rule: start_loop_induct)
  case (exit s s1 tr1)
  from exit(1) show ?case
  proof (cases rule: start_body_cases)
    case (idle q')
    have "q' = []" using getNext_loop_None [OF idle(1)] .
    then show ?thesis
      unfolding idle(2,3)
      using spec_start_loop.drained [OF getNext_eq [OF idle(1)], where act = act] by simp
  next
    case (invoked si q' c)
    let ?z1 = "s\<lparr>queue := q'\<rparr>"
    have g: "getNext comparer s = (Some si, ?z1)" using getNext_eq [OF invoked(1)] .
    have c: "c = (if comparer (dueTime si) (clock ?z1) > 0 then dueTime si else clock ?z1)"
      using invoked(2) by simp
    have z2: "s1 = act (payload si) (?z1\<lparr>clock := c, queue := remove si (queue ?z1)\<rparr>)"
      using invoked(3) by simp
    show ?thesis unfolding invoked(4) by (rule spec_start_loop.stopped [where act = act, OF g c z2 exit(2)])
  qed
next
  case (continue s s1 tr1 s2 tr2)
  from continue(1) show ?case
  proof (cases rule: start_body_cases)
    case (idle q')
    then show ?thesis using continue(2) by simp
  next
    case (invoked si q' c)
    let ?z1 = "s\<lparr>queue := q'\<rparr>"
    have g: "getNext comparer s = (Some si, ?z1)" using getNext_eq [OF invoked(1)] .
    have c: "c = (if comparer (dueTime si) (clock ?z1) > 0 then dueTime si else clock ?z1)"
      using invoked(2) by simp
    have z2: "s1 = act (payload si) (?z1\<lparr>clock := c, queue := remove si (queue ?z1)\<rparr>)"
      using invoked(3) by simp
    have "spec_start_loop comparer act s s2 ((si, c) # tr2)"
      by (rule spec_start_loop.repeated [where act = act, OF g c z2 continue(2,4)])
    then show ?thesis unfolding invoked(4) by simp
  qed
qed

lemma spec_start_loop_run:
  "spec_start_loop comparer act z z' tr \<Longrightarrow> start_loop comparer act z = Some (z', tr)"
proof (induction rule: spec_start_loop.induct)
  case (drained z z1)
  have "start_body comparer act z = (z1\<lparr>isEnabled := False\<rparr>, [])"
    using start_body_None [OF drained] .
  then show ?case by (rule start_loop_exit) simp
next
  case (stopped z si z1 c z2)
  have f: "clock z1 = clock z" using getNext_fields [OF stopped(1)] by simp
  have "start_body comparer act z = (z2, [(si, c)])"
    using start_body_Some [OF stopped(1), of act] stopped(2,3) f by simp
  then show ?case using start_loop_exit [OF _ stopped(4)] by simp
next
  case (repeated z si z1 c z2 z3 tr)
  have f: "clock z1 = clock z" using getNext_fields [OF repeated(1)] by simp
  have "start_body comparer act z = (z2, [(si, c)])"
    using start_body_Some [OF repeated(1), of act] repeated(2,3) f by simp
  then show ?case using start_loop_continue [OF _ repeated(4)] repeated(6) by simp
qed

lemma threeItems_start_idle:
  "start numberComparer noAction threeItems =
     Some (\<lparr>clock = 2, isEnabled = False, queue = [], nextSequence = 3, world = ()\<rparr>,
           [(\<lparr>item_id = 0, dueTime = 1, payload = Some 1, isCancelled = False\<rparr>, 1),
            (\<lparr>item_id = 1, dueTime = 2, payload = None, isCancelled = False\<rparr>, 2)])"
  by code_simp

section \<open>The claims\<close>

text \<open>
  Claim C1, as amended. \<^verbatim>\<open>advanceTo(t)\<close> throws the out-of-range error when \<open>t\<close> is earlier
  than the clock, and returns with nothing changed when \<open>t\<close> equals the clock. When \<open>t\<close> is
  strictly later than the clock and a run loop is active, it returns with nothing changed.
  When \<open>t\<close> is strictly later and no run loop is active, then whenever it returns the clock
  is exactly \<open>t\<close> and what it invoked was not cancelled and was due at \<open>t\<close> or before. If
  moreover the comparer is a total order, the queued items at the call have distinct
  identities that were all issued, no action calls \<^verbatim>\<open>stop\<close>, and every action leaves each
  queued item in the queue as it is (it does not remove, cancel or otherwise change a
  queued item; it may add items) and keeps the identities of the queued items distinct
  and issued, then it has invoked every item that was queued at the call, not cancelled
  and due at \<open>t\<close> or before. And if the actions leave the scheduler alone, it does return.
\<close>

theorem C1_advanceTo:
  "(comparer (clock s) t > 0
      \<longrightarrow> advanceTo comparer act t s = Some (Inl (ArgumentOutOfRange, s))) \<and>
   (comparer (clock s) t = 0 \<longrightarrow> advanceTo comparer act t s = Some (Inr (s, []))) \<and>
   (comparer (clock s) t < 0 \<and> isEnabled s
      \<longrightarrow> advanceTo comparer act t s = Some (Inr (s, []))) \<and>
   (comparer (clock s) t < 0 \<and> \<not> isEnabled s \<longrightarrow>
      (\<forall>r. advanceTo comparer act t s = Some r \<longrightarrow>
         (\<exists>s' tr. r = Inr (s', tr) \<and> clock s' = t \<and>
            (\<forall>(si, c) \<in> set tr. \<not> isCancelled si \<and> comparer (dueTime si) t \<le> 0))) \<and>
      (total_order_comparer comparer \<and> wellformed s \<and> never_stops act \<and> keeps_queued act \<longrightarrow>
         (\<forall>s' tr. advanceTo comparer act t s = Some (Inr (s', tr)) \<longrightarrow>
            (\<forall>x \<in> set (queue s). \<not> isCancelled x \<and> comparer (dueTime x) t \<le> 0
               \<longrightarrow> x \<in> fst ` set tr))) \<and>
      (leaves_scheduler act \<longrightarrow>
         (\<exists>s' tr. advanceTo comparer act t s = Some (Inr (s', tr)) \<and> clock s' = t)))"
proof -
  let ?s = "s\<lparr>isEnabled := True\<rparr>"
  have early: "comparer (clock s) t > 0
      \<longrightarrow> advanceTo comparer act t s = Some (Inl (ArgumentOutOfRange, s))"
    and same: "comparer (clock s) t = 0 \<longrightarrow> advanceTo comparer act t s = Some (Inr (s, []))"
    and running: "comparer (clock s) t < 0 \<and> isEnabled s
      \<longrightarrow> advanceTo comparer act t s = Some (Inr (s, []))"
    by (simp_all add: advanceTo_def Let_def)
  have unfold: "advanceTo comparer act t s =
      Option.bind (advanceTo_loop comparer act t ?s) (\<lambda>(s1, tr). Some (Inr (s1\<lparr>clock := t\<rparr>, tr)))"
    if "comparer (clock s) t < 0" "\<not> isEnabled s"
    using that by (simp add: advanceTo_def Let_def)
  have ret: "\<exists>s' tr. r = Inr (s', tr) \<and> clock s' = t \<and>
      (\<forall>(si, c) \<in> set tr. \<not> isCancelled si \<and> comparer (dueTime si) t \<le> 0)"
    if l: "comparer (clock s) t < 0" "\<not> isEnabled s" and r: "advanceTo comparer act t s = Some r"
    for r
  proof -
    obtain s1 tr where loop: "advanceTo_loop comparer act t ?s = Some (s1, tr)"
      and r': "r = Inr (s1\<lparr>clock := t\<rparr>, tr)"
      using r unfold [OF l] by (auto simp: bind_eq_Some_conv)
    show ?thesis using r' advanceTo_loop_not_cancelled [OF loop] by simp
  qed
  have cov: "x \<in> fst ` set tr"
    if l: "comparer (clock s) t < 0" "\<not> isEnabled s"
      and h: "total_order_comparer comparer" "wellformed s" "never_stops act" "keeps_queued act"
      and r: "advanceTo comparer act t s = Some (Inr (s', tr))"
      and x: "x \<in> set (queue s)" "\<not> isCancelled x" "comparer (dueTime x) t \<le> 0"
    for s' tr x
  proof -
    obtain s1 where loop: "advanceTo_loop comparer act t ?s = Some (s1, tr)"
      using r unfold [OF l] by (auto simp: bind_eq_Some_conv)
    have w: "wellformed ?s" using h(2) by (simp add: wellformed_def)
    show ?thesis using advanceTo_loop_covers [OF loop h(1,3,4) w _ _ x(2,3)] x(1) by simp
  qed
  have fin: "\<exists>s' tr. advanceTo comparer act t s = Some (Inr (s', tr)) \<and> clock s' = t"
    if l: "comparer (clock s) t < 0" "\<not> isEnabled s" and h: "leaves_scheduler act"
  proof -
    obtain r where "advanceTo_loop comparer act t ?s = Some r"
      using advanceTo_loop_returns [OF leaves_scheduler_relies(4) [OF h]] by blast
    then show ?thesis using unfold [OF l] by (cases r) simp
  qed
  show ?thesis using early same running ret cov fin by blast
qed

theorem C1_advanceTo_witness:
  "numberComparer (clock threeItems) 7 < 0 \<and> \<not> isEnabled threeItems \<and>
   total_order_comparer numberComparer \<and> wellformed threeItems \<and>
   leaves_scheduler (noAction :: nat option \<Rightarrow> (int, nat option, unit) scheduler \<Rightarrow> _) \<and>
   advanceTo numberComparer noAction 7 threeItems =
     Some (Inr (\<lparr>clock = 7, isEnabled = False, queue = [], nextSequence = 3, world = ()\<rparr>,
           [(\<lparr>item_id = 0, dueTime = 1, payload = Some 1, isCancelled = False\<rparr>, 1),
            (\<lparr>item_id = 1, dueTime = 2, payload = None, isCancelled = False\<rparr>, 2)])) \<and>
   advanceTo numberComparer noAction (- 1) threeItems =
     Some (Inl (ArgumentOutOfRange, threeItems)) \<and>
   advanceTo numberComparer noAction 0 threeItems = Some (Inr (threeItems, []))"
proof -
  have l: "leaves_scheduler (noAction :: nat option \<Rightarrow> (int, nat option, unit) scheduler \<Rightarrow> _)"
    by (rule leaves_scheduler_noAction)
  have c: "clock threeItems = 0" "\<not> isEnabled threeItems" by (simp_all add: threeItems_eq)
  show ?thesis
    using C1_advanceTo [of numberComparer threeItems 7 noAction]
      C1_advanceTo [of numberComparer threeItems "- 1" noAction]
      C1_advanceTo [of numberComparer threeItems 0 noAction]
      l c number_total_order wellformed_threeItems threeItems_advanceTo_idle
    by (simp add: numberComparer_def)
qed

text \<open>
  The claim as it was stated fails in a state where a run loop is active: a target
  strictly later than the clock leaves the clock where it was, and the queued item that
  is due before the target is not invoked.
\<close>

theorem C1_counterexample:
  "numberComparer (clock busy) 5 < 0 \<and>
   advanceTo numberComparer noAction 5 busy = Some (Inr (busy, [])) \<and>
   clock busy \<noteq> 5 \<and>
   queue busy = [\<lparr>item_id = 0, dueTime = 3, payload = (), isCancelled = False\<rparr>] \<and>
   numberComparer 3 5 \<le> 0"
  by (simp add: advanceTo_def busy_def numberComparer_def)

text \<open>
  Claim C2. \<^verbatim>\<open>start\<close> returns at once and changes nothing when a run loop is active.
  Otherwise it sets \<open>isEnabled\<close> and runs its loop, and the loop does what the
  specification says: \<^verbatim>\<open>start\<close> returns a state and a list of invocations exactly when the
  loop of the specification, which repeats its pass until a pass leaves \<open>isEnabled\<close>
  false, ends in that state after these invocations. A pass from a state \<open>z\<close> takes the
  item \<^verbatim>\<open>getNext\<close> returns: an item of the queue that is not cancelled and, for a total
  order and distinct item identities, no later than any other such item. The pass sets
  the clock to the due time of the item only when that is strictly later than the clock,
  removes the item from the queue and runs its action. When \<^verbatim>\<open>getNext\<close> finds nothing,
  the pass clears \<open>isEnabled\<close>. Started from an idle scheduler, \<^verbatim>\<open>start\<close> returns only
  with \<open>isEnabled\<close> false, and then the queue is empty or the last action that ran has
  cleared \<open>isEnabled\<close>, which is what \<^verbatim>\<open>stop\<close> does. When the queued items at the call
  have distinct identities that were all issued, no action calls \<^verbatim>\<open>stop\<close>, and every
  action leaves each queued item in the queue as it is and keeps the identities of the
  queued items distinct and issued, \<^verbatim>\<open>start\<close> returns only with the queue empty and after
  it has invoked every item that was queued and not cancelled at the call. When the
  comparer is a total order, the queued items at the call have distinct issued identities
  and the actions leave the scheduler alone, \<^verbatim>\<open>start\<close> does return, with \<open>isEnabled\<close>
  false and the queue empty, and it has invoked exactly the items that were queued and
  not cancelled, in strictly ascending order of due time and identity (so each once, the
  earliest first), each with the clock at the later of its due time and the clock at the
  call.
\<close>

theorem C2_start:
  "(isEnabled s \<longrightarrow> start comparer act s = Some (s, [])) \<and>
   (\<not> isEnabled s \<longrightarrow> start comparer act s = start_loop comparer act (s\<lparr>isEnabled := True\<rparr>)) \<and>
   (\<not> isEnabled s \<longrightarrow>
      (\<forall>s' tr. start comparer act s = Some (s', tr)
         \<longleftrightarrow> spec_start_loop comparer act (s\<lparr>isEnabled := True\<rparr>) s' tr)) \<and>
   (\<forall>si z1. getNext comparer z = (Some si, z1) \<longrightarrow>
      \<not> isCancelled si \<and> si \<in> set (queue z) \<and>
      (total_order_comparer comparer \<and> distinct (map item_id (queue z)) \<longrightarrow>
         (\<forall>x \<in> set (queue z). \<not> isCancelled x \<longrightarrow> compareTo comparer si x \<le> 0)) \<and>
      start_body comparer act z =
        (act (payload si)
           (z1\<lparr>clock := (if comparer (dueTime si) (clock z) > 0 then dueTime si else clock z),
               queue := remove si (queue z1)\<rparr>),
         [(si, if comparer (dueTime si) (clock z) > 0 then dueTime si else clock z)])) \<and>
   (\<forall>z1. getNext comparer z = (None, z1) \<longrightarrow>
      queue z1 = [] \<and>
      (distinct (map item_id (queue z)) \<longrightarrow> (\<forall>x \<in> set (queue z). isCancelled x)) \<and>
      start_body comparer act z = (z1\<lparr>isEnabled := False\<rparr>, [])) \<and>
   (\<forall>s' tr. \<not> isEnabled s \<and> start comparer act s = Some (s', tr) \<longrightarrow>
      \<not> isEnabled s' \<and>
      (queue s' = [] \<or>
       (tr \<noteq> [] \<and> (\<exists>sk. isEnabled sk \<and> s' = act (payload (fst (last tr))) sk)))) \<and>
   (\<not> isEnabled s \<and> wellformed s \<and> never_stops act \<and> keeps_queued act \<longrightarrow>
      (\<forall>s' tr. start comparer act s = Some (s', tr) \<longrightarrow>
         queue s' = [] \<and> (\<forall>x \<in> set (queue s). \<not> isCancelled x \<longrightarrow> x \<in> fst ` set tr))) \<and>
   (\<not> isEnabled s \<and> total_order_comparer comparer \<and> wellformed s \<and> leaves_scheduler act \<longrightarrow>
      (\<exists>s' tr. start comparer act s = Some (s', tr) \<and>
         \<not> isEnabled s' \<and> queue s' = [] \<and>
         fst ` set tr = {x \<in> set (queue s). \<not> isCancelled x} \<and>
         sorted_wrt (\<lambda>a b. compareTo comparer a b < 0) (map fst tr) \<and>
         (\<forall>(si, c) \<in> set tr.
            c = (if comparer (dueTime si) (clock s) > 0 then dueTime si else clock s))))"
proof -
  let ?live = "s\<lparr>isEnabled := True\<rparr>"
  have st: "start comparer act s = start_loop comparer act ?live" if "\<not> isEnabled s"
    using that by (simp add: start_def)
  have a: "\<not> isCancelled si \<and> si \<in> set (queue z) \<and>
      (total_order_comparer comparer \<and> distinct (map item_id (queue z)) \<longrightarrow>
         (\<forall>x \<in> set (queue z). \<not> isCancelled x \<longrightarrow> compareTo comparer si x \<le> 0)) \<and>
      start_body comparer act z =
        (act (payload si)
           (z1\<lparr>clock := (if comparer (dueTime si) (clock z) > 0 then dueTime si else clock z),
               queue := remove si (queue z1)\<rparr>),
         [(si, if comparer (dueTime si) (clock z) > 0 then dueTime si else clock z)])"
    if g: "getNext comparer z = (Some si, z1)" for si z1
  proof -
    have l: "getNext_loop comparer (queue z) = (Some si, queue z1)" and f: "clock z1 = clock z"
      using getNext_fields [OF g] by simp_all
    have 1: "\<not> isCancelled si" using getNext_loop_Some [OF l] by simp
    have "si \<in> set (queue z1)" using getNext_loop_Some [OF l] peek_mem by blast
    then have 2: "si \<in> set (queue z)" using getNext_loop_subset [OF l] by blast
    have 3: "compareTo comparer si x \<le> 0"
      if "total_order_comparer comparer" "distinct (map item_id (queue z))"
        "x \<in> set (queue z)" "\<not> isCancelled x" for x
      using getNext_loop_earliest [OF l that] .
    have 4: "start_body comparer act z =
        (act (payload si)
           (z1\<lparr>clock := (if comparer (dueTime si) (clock z) > 0 then dueTime si else clock z),
               queue := remove si (queue z1)\<rparr>),
         [(si, if comparer (dueTime si) (clock z) > 0 then dueTime si else clock z)])"
      using start_body_Some [OF g, of act] f by simp
    show ?thesis using 1 2 3 4 by blast
  qed
  have b: "queue z1 = [] \<and>
      (distinct (map item_id (queue z)) \<longrightarrow> (\<forall>x \<in> set (queue z). isCancelled x)) \<and>
      start_body comparer act z = (z1\<lparr>isEnabled := False\<rparr>, [])"
    if g: "getNext comparer z = (None, z1)" for z1
  proof -
    have l: "getNext_loop comparer (queue z) = (None, queue z1)"
      using getNext_fields [OF g] by simp
    show ?thesis
      using getNext_loop_None [OF l] getNext_loop_all_cancelled [OF l] start_body_None [OF g, of act]
      by blast
  qed
  have c: "\<not> isEnabled s' \<and>
      (queue s' = [] \<or>
       (tr \<noteq> [] \<and> (\<exists>sk. isEnabled sk \<and> s' = act (payload (fst (last tr))) sk)))"
    if "\<not> isEnabled s" "start comparer act s = Some (s', tr)" for s' tr
    using that start_loop_exit_reason [of comparer act ?live s' tr]
    by (simp add: start_def)
  have d: "isEnabled s \<longrightarrow> start comparer act s = Some (s, [])"
    and e: "\<not> isEnabled s \<longrightarrow> start comparer act s = start_loop comparer act ?live"
    by (simp_all add: start_def)
  have f: "start comparer act s = Some (s', tr) \<longleftrightarrow> spec_start_loop comparer act ?live s' tr"
    if "\<not> isEnabled s" for s' tr
    unfolding st [OF that]
  proof (rule iffI)
    assume "start_loop comparer act ?live = Some (s', tr)"
    then show "spec_start_loop comparer act ?live s' tr" by (rule start_loop_spec)
  next
    assume "spec_start_loop comparer act ?live s' tr"
    then show "start_loop comparer act ?live = Some (s', tr)" by (rule spec_start_loop_run)
  qed
  have g: "queue s' = [] \<and> (\<forall>x \<in> set (queue s). \<not> isCancelled x \<longrightarrow> x \<in> fst ` set tr)"
    if i: "\<not> isEnabled s" and w: "wellformed s" and n: "never_stops act" and k: "keeps_queued act"
      and r: "start comparer act s = Some (s', tr)" for s' tr
  proof -
    have run: "start_loop comparer act ?live = Some (s', tr)" using r st [OF i] by simp
    have wl: "wellformed ?live" using w by (simp add: wellformed_def)
    have "x \<in> fst ` set tr" if "x \<in> set (queue s)" "\<not> isCancelled x" for x
      using start_loop_covers [OF run n k wl _ _ that(2), of] that(1) by simp
    then show ?thesis using start_loop_drains [OF run _ n] by simp
  qed
  have h: "\<exists>s' tr. start comparer act s = Some (s', tr) \<and>
         \<not> isEnabled s' \<and> queue s' = [] \<and>
         fst ` set tr = {x \<in> set (queue s). \<not> isCancelled x} \<and>
         sorted_wrt (\<lambda>a b. compareTo comparer a b < 0) (map fst tr) \<and>
         (\<forall>(si, c) \<in> set tr.
            c = (if comparer (dueTime si) (clock s) > 0 then dueTime si else clock s))"
    if i: "\<not> isEnabled s" and t: "total_order_comparer comparer" and w: "wellformed s"
      and l: "leaves_scheduler act"
  proof -
    obtain s' tr where run: "start_loop comparer act ?live = Some (s', tr)"
      using start_loop_returns [OF leaves_scheduler_relies(4) [OF l], of comparer ?live] by auto
    have r: "start comparer act s = Some (s', tr)" using run st [OF i] by simp
    have cl: "clock ?live = clock s" "queue ?live = queue s" by simp_all
    have ord: "\<forall>(si, c) \<in> set tr. si \<in> set (queue s) \<and>
          c = (if comparer (dueTime si) (clock s) > 0 then dueTime si else clock s)"
      and srt: "sorted_wrt (\<lambda>a b. compareTo comparer a b < 0) (map fst tr)"
      using start_loop_order [OF run t l] unfolding cl by simp_all
    have live: "\<forall>(si, c) \<in> set tr. \<not> isCancelled si"
      using start_loop_not_cancelled [OF run] .
    have cov: "queue s' = [] \<and> (\<forall>x \<in> set (queue s). \<not> isCancelled x \<longrightarrow> x \<in> fst ` set tr)"
      using g [OF i w leaves_scheduler_relies(1,2) [OF l] r] .
    have dr: "\<not> isEnabled s'"
      using start_loop_drains [OF run _ leaves_scheduler_relies(1) [OF l]] by simp
    have ord2: "\<forall>(si, c) \<in> set tr.
          c = (if comparer (dueTime si) (clock s) > 0 then dueTime si else clock s)"
      using ord by (simp add: case_prod_unfold)
    have eq: "fst ` set tr = {x \<in> set (queue s). \<not> isCancelled x}"
    proof (intro set_eqI iffI)
      fix x assume "x \<in> fst ` set tr"
      then obtain c where m: "(x, c) \<in> set tr" by auto
      have "x \<in> set (queue s)" using bspec [OF ord m] by simp
      moreover have "\<not> isCancelled x" using bspec [OF live m] by simp
      ultimately show "x \<in> {x \<in> set (queue s). \<not> isCancelled x}" by simp
    next
      fix x assume "x \<in> {x \<in> set (queue s). \<not> isCancelled x}"
      then show "x \<in> fst ` set tr" using cov by simp
    qed
    have q: "queue s' = []" using cov by simp
    show ?thesis
      by (intro exI [of _ s'] exI [of _ tr] conjI r dr q eq srt ord2)
  qed
  have a': "\<forall>si z1. getNext comparer z = (Some si, z1) \<longrightarrow>
      \<not> isCancelled si \<and> si \<in> set (queue z) \<and>
      (total_order_comparer comparer \<and> distinct (map item_id (queue z)) \<longrightarrow>
         (\<forall>x \<in> set (queue z). \<not> isCancelled x \<longrightarrow> compareTo comparer si x \<le> 0)) \<and>
      start_body comparer act z =
        (act (payload si)
           (z1\<lparr>clock := (if comparer (dueTime si) (clock z) > 0 then dueTime si else clock z),
               queue := remove si (queue z1)\<rparr>),
         [(si, if comparer (dueTime si) (clock z) > 0 then dueTime si else clock z)])"
    by (intro allI impI) (rule a)
  have b': "\<forall>z1. getNext comparer z = (None, z1) \<longrightarrow>
      queue z1 = [] \<and>
      (distinct (map item_id (queue z)) \<longrightarrow> (\<forall>x \<in> set (queue z). isCancelled x)) \<and>
      start_body comparer act z = (z1\<lparr>isEnabled := False\<rparr>, [])"
    by (intro allI impI) (rule b)
  have c': "\<forall>s' tr. \<not> isEnabled s \<and> start comparer act s = Some (s', tr) \<longrightarrow>
      \<not> isEnabled s' \<and>
      (queue s' = [] \<or>
       (tr \<noteq> [] \<and> (\<exists>sk. isEnabled sk \<and> s' = act (payload (fst (last tr))) sk)))"
  proof (intro allI impI)
    fix s' tr assume "\<not> isEnabled s \<and> start comparer act s = Some (s', tr)"
    then have "\<not> isEnabled s" "start comparer act s = Some (s', tr)" by simp_all
    then show "\<not> isEnabled s' \<and>
      (queue s' = [] \<or>
       (tr \<noteq> [] \<and> (\<exists>sk. isEnabled sk \<and> s' = act (payload (fst (last tr))) sk)))"
      by (rule c)
  qed
  have f': "\<not> isEnabled s \<longrightarrow>
      (\<forall>s' tr. start comparer act s = Some (s', tr)
         \<longleftrightarrow> spec_start_loop comparer act (s\<lparr>isEnabled := True\<rparr>) s' tr)"
    by (intro allI impI) (rule f)
  have g': "\<not> isEnabled s \<and> wellformed s \<and> never_stops act \<and> keeps_queued act \<longrightarrow>
      (\<forall>s' tr. start comparer act s = Some (s', tr) \<longrightarrow>
         queue s' = [] \<and> (\<forall>x \<in> set (queue s). \<not> isCancelled x \<longrightarrow> x \<in> fst ` set tr))"
  proof (intro allI impI)
    fix s' tr
    assume h: "\<not> isEnabled s \<and> wellformed s \<and> never_stops act \<and> keeps_queued act"
      and r: "start comparer act s = Some (s', tr)"
    have "\<not> isEnabled s" "wellformed s" "never_stops act" "keeps_queued act" using h by simp_all
    then show "queue s' = [] \<and> (\<forall>x \<in> set (queue s). \<not> isCancelled x \<longrightarrow> x \<in> fst ` set tr)"
      using r by (rule g)
  qed
  have h': "\<not> isEnabled s \<and> total_order_comparer comparer \<and> wellformed s \<and> leaves_scheduler act \<longrightarrow>
      (\<exists>s' tr. start comparer act s = Some (s', tr) \<and>
         \<not> isEnabled s' \<and> queue s' = [] \<and>
         fst ` set tr = {x \<in> set (queue s). \<not> isCancelled x} \<and>
         sorted_wrt (\<lambda>a b. compareTo comparer a b < 0) (map fst tr) \<and>
         (\<forall>(si, c) \<in> set tr.
            c = (if comparer (dueTime si) (clock s) > 0 then dueTime si else clock s)))"
  proof (intro impI)
    assume k: "\<not> isEnabled s \<and> total_order_comparer comparer \<and> wellformed s \<and> leaves_scheduler act"
    have "\<not> isEnabled s" "total_order_comparer comparer" "wellformed s" "leaves_scheduler act"
      using k by simp_all
    then show "\<exists>s' tr. start comparer act s = Some (s', tr) \<and>
         \<not> isEnabled s' \<and> queue s' = [] \<and>
         fst ` set tr = {x \<in> set (queue s). \<not> isCancelled x} \<and>
         sorted_wrt (\<lambda>a b. compareTo comparer a b < 0) (map fst tr) \<and>
         (\<forall>(si, c) \<in> set tr.
            c = (if comparer (dueTime si) (clock s) > 0 then dueTime si else clock s))"
      by (rule h)
  qed
  show ?thesis by (intro conjI d e f' a' b' c' g' h')
qed

theorem C2_start_witness:
  "start numberComparer noAction busy = Some (busy, []) \<and>
   total_order_comparer numberComparer \<and> wellformed threeItems \<and>
   leaves_scheduler (noAction :: nat option \<Rightarrow> (int, nat option, unit) scheduler \<Rightarrow> _) \<and>
   getNext numberComparer threeItems =
     (Some \<lparr>item_id = 0, dueTime = 1, payload = Some 1, isCancelled = False\<rparr>, threeItems) \<and>
   \<not> isEnabled threeItems \<and>
   start numberComparer noAction threeItems =
     Some (\<lparr>clock = 2, isEnabled = False, queue = [], nextSequence = 3, world = ()\<rparr>,
           [(\<lparr>item_id = 0, dueTime = 1, payload = Some 1, isCancelled = False\<rparr>, 1),
            (\<lparr>item_id = 1, dueTime = 2, payload = None, isCancelled = False\<rparr>, 2)]) \<and>
   spec_start_loop numberComparer noAction (threeItems\<lparr>isEnabled := True\<rparr>)
     \<lparr>clock = 2, isEnabled = False, queue = [], nextSequence = 3, world = ()\<rparr>
     [(\<lparr>item_id = 0, dueTime = 1, payload = Some 1, isCancelled = False\<rparr>, 1),
      (\<lparr>item_id = 1, dueTime = 2, payload = None, isCancelled = False\<rparr>, 2)] \<and>
   start numberComparer cancelling threeItems =
     Some (\<lparr>clock = 1, isEnabled = False, queue = [], nextSequence = 3, world = ()\<rparr>,
           [(\<lparr>item_id = 0, dueTime = 1, payload = Some 1, isCancelled = False\<rparr>, 1)])"
proof -
  have g: "getNext numberComparer threeItems =
     (Some \<lparr>item_id = 0, dueTime = 1, payload = Some 1, isCancelled = False\<rparr>, threeItems)"
    by (simp add: threeItems_eq getNext_def getNext_loop.simps peek_def isHigherPriority_def
        compareTo_def numberComparer_def)
  have l: "leaves_scheduler (noAction :: nat option \<Rightarrow> (int, nat option, unit) scheduler \<Rightarrow> _)"
    by (rule leaves_scheduler_noAction)
  have e: "isEnabled busy" "\<not> isEnabled threeItems" by (simp_all add: busy_def threeItems_eq)
  have 1: "start numberComparer noAction busy = Some (busy, [])"
    using C2_start [of busy numberComparer noAction busy] e(1) by simp
  have k: "\<forall>s' tr. start numberComparer noAction threeItems = Some (s', tr)
      \<longleftrightarrow> spec_start_loop numberComparer noAction (threeItems\<lparr>isEnabled := True\<rparr>) s' tr"
    using conjunct1 [OF conjunct2 [OF conjunct2
        [OF C2_start [of threeItems numberComparer noAction threeItems]]]] e(2)
    by (rule mp)
  have 2: "spec_start_loop numberComparer noAction (threeItems\<lparr>isEnabled := True\<rparr>)
     \<lparr>clock = 2, isEnabled = False, queue = [], nextSequence = 3, world = ()\<rparr>
     [(\<lparr>item_id = 0, dueTime = 1, payload = Some 1, isCancelled = False\<rparr>, 1),
      (\<lparr>item_id = 1, dueTime = 2, payload = None, isCancelled = False\<rparr>, 2)]"
    by (rule iffD1 [OF spec [OF spec [OF k]]]) (rule threeItems_start_idle)
  show ?thesis
    using 1 2 g l e(2) number_total_order wellformed_threeItems threeItems_start_idle
      threeItems_start
    by simp
qed

text \<open>
  Claim C3, as amended. Take a new scheduler with clock \<open>c0\<close>, any sequence of calls of
  \<^verbatim>\<open>scheduleRelativeWithState\<close>, and then \<^verbatim>\<open>start\<close>, with a comparer that is a total order
  and actions that leave the scheduler alone. Then \<^verbatim>\<open>start\<close> returns and has invoked each
  scheduled item once. Each action found the clock at the due time of its item when that
  is not earlier than \<open>c0\<close>, and at \<open>c0\<close> otherwise: the clock is not moved back to an
  earlier due time. The clocks that the actions found never decrease along the run, and of
  two items with the same due time the one scheduled first is invoked first.
\<close>

theorem C3_start_order:
  assumes t: "total_order_comparer comparer" and l: "leaves_scheduler act"
  shows "\<exists>s' tr.
     start comparer act (scheduleAll add requests (VirtualTimeScheduler c0 w)) = Some (s', tr) \<and>
     queue (scheduleAll add requests (VirtualTimeScheduler c0 w)) =
       map (\<lambda>(k, (p, d)). \<lparr>item_id = k, dueTime = add c0 d, payload = p, isCancelled = False\<rparr>)
         (enumerate 0 requests) \<and>
     set (map fst tr) = set (queue (scheduleAll add requests (VirtualTimeScheduler c0 w))) \<and>
     length tr = length requests \<and>
     (\<forall>(si, c) \<in> set tr. c = (if comparer (dueTime si) c0 > 0 then dueTime si else c0)) \<and>
     (\<forall>(si, c) \<in> set tr. comparer c0 (dueTime si) \<le> 0 \<longrightarrow> c = dueTime si) \<and>
     clocks_ascend comparer tr \<and>
     (\<forall>i j. i < length tr \<and> j < length tr \<and>
        dueTime (fst (tr ! i)) = dueTime (fst (tr ! j)) \<and>
        item_id (fst (tr ! i)) < item_id (fst (tr ! j)) \<longrightarrow> i < j)"
proof -
  let ?idle = "scheduleAll add requests (VirtualTimeScheduler c0 w)"
  let ?live = "?idle\<lparr>isEnabled := True\<rparr>"
  let ?item = "\<lambda>(k, (p, d)). \<lparr>item_id = k, dueTime = add c0 d, payload = p, isCancelled = False\<rparr>"
  have f1: "clock ?idle = c0"
    by (simp add: scheduleAll_fields VirtualTimeScheduler_def)
  have f2: "\<not> isEnabled ?idle"
    by (simp add: scheduleAll_fields VirtualTimeScheduler_def)
  have f3: "nextSequence ?idle = length requests"
    by (simp add: scheduleAll_fields VirtualTimeScheduler_def)
  have f4: "queue ?idle = map ?item (enumerate 0 requests)"
    by (simp add: scheduleAll_fields VirtualTimeScheduler_def)
  note f = f1 f2 f3 f4
  have ids: "map item_id (queue ?idle) = [0..<length requests]"
  proof -
    have "map item_id (map ?item (enumerate 0 requests)) = map fst (enumerate 0 requests)"
      by (simp add: case_prod_unfold o_def)
    then show ?thesis unfolding f(4) by (simp only: map_fst_enumerate add_0)
  qed
  have live: "\<forall>x \<in> set (queue ?idle). \<not> isCancelled x"
    unfolding f(4) by auto
  have wf: "wellformed ?live"
    using ids f(3) by (auto simp: wellformed_def dest!: arg_cong [where f = set])
  obtain s' tr where run: "start_loop comparer act ?live = Some (s', tr)"
    using start_loop_returns [OF leaves_scheduler_relies(4) [OF l], of comparer ?live] by auto
  have st: "start comparer act ?idle = Some (s', tr)" using run f(2) by (simp add: start_def)
  have cl: "clock ?live = c0" "queue ?live = queue ?idle" using f(1) by simp_all
  have ord: "\<forall>(si, c) \<in> set tr. si \<in> set (queue ?idle) \<and>
        c = (if comparer (dueTime si) c0 > 0 then dueTime si else c0)"
    and srt: "sorted_wrt (\<lambda>a b. compareTo comparer a b < 0) (map fst tr)"
    using start_loop_order [OF run t l] unfolding cl by simp_all
  have cov: "x \<in> fst ` set tr" if "x \<in> set (queue ?idle)" for x
    using start_loop_covers [OF run leaves_scheduler_relies(1,2) [OF l] wf, of x] that live
    by simp
  have seteq: "set (map fst tr) = set (queue ?idle)"
    using ord cov by auto
  have "distinct (map fst tr)" using strict_order_distinct [OF t srt] .
  moreover have "distinct (queue ?idle)"
    using ids distinct_upt [of 0 "length requests"] distinct_map [of item_id "queue ?idle"] by simp
  ultimately have "length (map fst tr) = length (queue ?idle)"
    using seteq distinct_card [of "map fst tr"] distinct_card [of "queue ?idle"] by simp
  then have len: "length tr = length requests" by (simp add: f(4))
  have exact: "\<forall>(si, c) \<in> set tr. comparer c0 (dueTime si) \<le> 0 \<longrightarrow> c = dueTime si"
  proof -
    have "c = dueTime si"
      if "(si, c) \<in> set tr" "comparer c0 (dueTime si) \<le> 0" for si c
    proof (cases "comparer (dueTime si) c0 > 0")
      case True
      then show ?thesis using ord that(1) by auto
    next
      case False
      then have "\<not> comparer c0 (dueTime si) < 0" using comparer_flip [OF t] by blast
      then have "comparer c0 (dueTime si) = 0" using that(2) by simp
      then have "c0 = dueTime si" using comparer_eq [OF t] by blast
      then show ?thesis using ord that(1) False by auto
    qed
    then show ?thesis by auto
  qed
  have asc: "clocks_ascend comparer tr"
    using start_loop_clock [OF run t
        keeps_clock_never_rewinds [OF t leaves_scheduler_relies(3) [OF l]]] by simp
  have fifo: "i < j"
    if "i < length tr" "j < length tr" "dueTime (fst (tr ! i)) = dueTime (fst (tr ! j))"
      "item_id (fst (tr ! i)) < item_id (fst (tr ! j))" for i j
    using strict_order_fifo [OF t srt, of i j] that by simp
  show ?thesis using st f(4) seteq len ord exact asc fifo by blast
qed

theorem C3_start_order_witness:
  "total_order_comparer numberComparer \<and>
   leaves_scheduler (noAction :: nat \<Rightarrow> (int, nat, unit) scheduler \<Rightarrow> _) \<and>
   start numberComparer noAction
     (scheduleAll numberAdd [(0 :: nat, 10), (1, 5), (2, 5)] (VirtualTimeScheduler 0 ())) =
     Some (\<lparr>clock = 10, isEnabled = False, queue = [], nextSequence = 3, world = ()\<rparr>,
           [(\<lparr>item_id = 1, dueTime = 5, payload = 1, isCancelled = False\<rparr>, 5),
            (\<lparr>item_id = 2, dueTime = 5, payload = 2, isCancelled = False\<rparr>, 5),
            (\<lparr>item_id = 0, dueTime = 10, payload = 0, isCancelled = False\<rparr>, 10)])"
proof -
  have l: "leaves_scheduler (noAction :: nat \<Rightarrow> (int, nat, unit) scheduler \<Rightarrow> _)"
    by (rule leaves_scheduler_noAction)
  show ?thesis
    using C3_start_order [OF number_total_order l, of numberAdd "[(0, 10), (1, 5), (2, 5)]" 0 "()"]
      number_total_order l tens_and_fives_start
    by simp
qed

text \<open>
  The claim as it was stated fails for an item whose due time is earlier than the clock:
  scheduled with the relative time -5 at clock 0, the item is due at -5, and its action
  finds the clock at 0.
\<close>

theorem C3_counterexample:
  "start numberComparer noAction
     (snd (scheduleRelativeWithState numberAdd () (- 5) (VirtualTimeScheduler 0 ()))) =
     Some (\<lparr>clock = 0, isEnabled = False, queue = [], nextSequence = 1, world = ()\<rparr>,
           [(\<lparr>item_id = 0, dueTime = - 5, payload = (), isCancelled = False\<rparr>, 0)]) \<and>
   dueTime \<lparr>item_id = 0 :: nat, dueTime = - 5 :: int, payload = (), isCancelled = False\<rparr> \<noteq> 0"
  by code_simp

text \<open>
  Claim C4. An item whose cancellation flag is set is never invoked: every item that
  \<^verbatim>\<open>start\<close> or \<^verbatim>\<open>advanceTo\<close> invokes had its flag unset when it was invoked, and once the
  handle \<open>h\<close> is disposed (before the run, or by an action in the middle of it) no later
  pass of either loop invokes item \<open>h\<close>, as long as no action resets the flag. \<^verbatim>\<open>getNext\<close>
  only removes items from the queue; an item it removes is cancelled and precedes
  everything that stays; it returns nothing exactly when it has emptied the queue, and
  otherwise the item it returns is not cancelled and is the first of the queue that is left.
\<close>

theorem C4_cancelled_items_never_run:
  "(\<forall>s' tr. start comparer act s = Some (s', tr) \<longrightarrow> (\<forall>(si, c) \<in> set tr. \<not> isCancelled si)) \<and>
   (\<forall>s' tr. advanceTo comparer act time s = Some (Inr (s', tr))
      \<longrightarrow> (\<forall>(si, c) \<in> set tr. \<not> isCancelled si)) \<and>
   (h < nextSequence s \<longrightarrow> cancelled_in h (dispose h s)) \<and>
   (keeps_cancelled h act \<and> cancelled_in h s \<longrightarrow>
      (\<forall>s' tr. start_loop comparer act s = Some (s', tr)
         \<longrightarrow> (\<forall>(si, c) \<in> set tr. item_id si \<noteq> h)) \<and>
      (\<forall>s' tr. advanceTo_loop comparer act time s = Some (s', tr)
         \<longrightarrow> (\<forall>(si, c) \<in> set tr. item_id si \<noteq> h)) \<and>
      (\<forall>s' tr. start comparer act s = Some (s', tr)
         \<longrightarrow> (\<forall>(si, c) \<in> set tr. item_id si \<noteq> h)) \<and>
      (\<forall>s' tr. advanceTo comparer act time s = Some (Inr (s', tr))
         \<longrightarrow> (\<forall>(si, c) \<in> set tr. item_id si \<noteq> h))) \<and>
   (\<forall>r s1. getNext comparer s = (r, s1) \<longrightarrow>
      set (queue s1) \<subseteq> set (queue s) \<and>
      clock s1 = clock s \<and> isEnabled s1 = isEnabled s \<and>
      (r = None \<longleftrightarrow> queue s1 = []) \<and>
      (\<forall>si. r = Some si \<longrightarrow> \<not> isCancelled si \<and> peek comparer (queue s1) = Some si) \<and>
      (total_order_comparer comparer \<and> distinct (map item_id (queue s)) \<longrightarrow>
         (\<forall>x \<in> set (queue s). x \<notin> set (queue s1) \<longrightarrow>
            isCancelled x \<and> (\<forall>y \<in> set (queue s1). compareTo comparer x y \<le> 0)) \<and>
         (\<forall>x \<in> set (queue s). \<not> isCancelled x \<longrightarrow> x \<in> set (queue s1)) \<and>
         (\<forall>si. r = Some si \<longrightarrow> (\<forall>y \<in> set (queue s1). compareTo comparer si y \<le> 0))))"
proof -
  have a: "\<forall>(si, c) \<in> set tr. \<not> isCancelled si" if "start comparer act s = Some (s', tr)" for s' tr
  proof (cases "isEnabled s")
    case True
    then show ?thesis using that by (simp add: start_def)
  next
    case False
    then show ?thesis using that start_loop_not_cancelled [of comparer act _ s' tr]
      by (simp add: start_def)
  qed
  have b: "\<forall>(si, c) \<in> set tr. \<not> isCancelled si"
    if "advanceTo comparer act time s = Some (Inr (s', tr))" for s' tr
    using that
  proof (cases rule: advanceTo_Inr_cases)
    case noop
    then show ?thesis by simp
  next
    case (ran s1)
    then show ?thesis using advanceTo_loop_not_cancelled [OF ran(3)] by auto
  qed
  have c: "\<forall>(si, c) \<in> set tr. item_id si \<noteq> h"
    if "keeps_cancelled h act" "cancelled_in h s" "start comparer act s = Some (s', tr)" for s' tr
  proof (cases "isEnabled s")
    case True
    then show ?thesis using that by (simp add: start_def)
  next
    case False
    have "cancelled_in h (s\<lparr>isEnabled := True\<rparr>)" using that(2) by (simp add: cancelled_in_def)
    then show ?thesis
      using False that start_loop_cancelled_in [of comparer act "s\<lparr>isEnabled := True\<rparr>" s' tr h]
      by (simp add: start_def)
  qed
  have d: "\<forall>(si, c) \<in> set tr. item_id si \<noteq> h"
    if "keeps_cancelled h act" "cancelled_in h s"
      "advanceTo comparer act time s = Some (Inr (s', tr))" for s' tr
    using that(3)
  proof (cases rule: advanceTo_Inr_cases)
    case noop
    then show ?thesis by simp
  next
    case (ran s1)
    have "cancelled_in h (s\<lparr>isEnabled := True\<rparr>)" using that(2) by (simp add: cancelled_in_def)
    then show ?thesis using advanceTo_loop_cancelled_in [OF ran(3) that(1)] by simp
  qed
  have e: "set (queue s1) \<subseteq> set (queue s) \<and>
      clock s1 = clock s \<and> isEnabled s1 = isEnabled s \<and>
      (r = None \<longleftrightarrow> queue s1 = []) \<and>
      (\<forall>si. r = Some si \<longrightarrow> \<not> isCancelled si \<and> peek comparer (queue s1) = Some si) \<and>
      (total_order_comparer comparer \<and> distinct (map item_id (queue s)) \<longrightarrow>
         (\<forall>x \<in> set (queue s). x \<notin> set (queue s1) \<longrightarrow>
            isCancelled x \<and> (\<forall>y \<in> set (queue s1). compareTo comparer x y \<le> 0)) \<and>
         (\<forall>x \<in> set (queue s). \<not> isCancelled x \<longrightarrow> x \<in> set (queue s1)) \<and>
         (\<forall>si. r = Some si \<longrightarrow> (\<forall>y \<in> set (queue s1). compareTo comparer si y \<le> 0)))"
    if g: "getNext comparer s = (r, s1)" for r s1
  proof -
    have l: "getNext_loop comparer (queue s) = (r, queue s1)"
      and f: "clock s1 = clock s" "isEnabled s1 = isEnabled s"
      using getNext_fields [OF g] by simp_all
    have 1: "set (queue s1) \<subseteq> set (queue s)" using getNext_loop_subset [OF l] .
    have 2: "r = None \<longleftrightarrow> queue s1 = []"
    proof (cases r)
      case None
      then show ?thesis using getNext_loop_None [of comparer "queue s" "queue s1"] l by simp
    next
      case (Some si)
      then show ?thesis
        using getNext_loop_Some [of comparer "queue s" si "queue s1"] l by (auto simp: peek_def)
    qed
    have 3: "\<not> isCancelled si \<and> peek comparer (queue s1) = Some si" if "r = Some si" for si
      using getNext_loop_Some [of comparer "queue s" si "queue s1"] l that by simp
    have 4: "isCancelled x \<and> (\<forall>y \<in> set (queue s1). compareTo comparer x y \<le> 0)"
      if "total_order_comparer comparer" "distinct (map item_id (queue s))"
        "x \<in> set (queue s)" "x \<notin> set (queue s1)" for x
      using getNext_loop_dropped [OF l that] .
    have 5: "x \<in> set (queue s1)"
      if "distinct (map item_id (queue s))" "x \<in> set (queue s)" "\<not> isCancelled x" for x
      using getNext_loop_keeps [OF l that] .
    have 6: "compareTo comparer si y \<le> 0"
      if "total_order_comparer comparer" "r = Some si" "y \<in> set (queue s1)" for si y
      using peek_least [OF that(1), of "queue s1" si y] 3 [OF that(2)] that(3) by simp
    show ?thesis using 1 2 3 4 5 6 f by blast
  qed
  show ?thesis
    using a b c d e cancelled_in_dispose [of h s]
      start_loop_cancelled_in [of comparer act s _ _ h]
      advanceTo_loop_cancelled_in [of comparer act time s _ _ h]
    by blast
qed

theorem C4_cancelled_items_never_run_witness:
  "start numberComparer cancelling threeItems =
     Some (\<lparr>clock = 1, isEnabled = False, queue = [], nextSequence = 3, world = ()\<rparr>,
           [(\<lparr>item_id = 0, dueTime = 1, payload = Some 1, isCancelled = False\<rparr>, 1)]) \<and>
   keeps_cancelled 2 (cancelling :: nat option \<Rightarrow> (int, nat option, unit) scheduler \<Rightarrow> _) \<and>
   cancelled_in 2 threeItems \<and>
   total_order_comparer numberComparer \<and> distinct (map item_id (queue threeItems)) \<and>
   getNext numberComparer threeItems =
     (Some \<lparr>item_id = 0, dueTime = 1, payload = Some 1, isCancelled = False\<rparr>, threeItems) \<and>
   \<not> isCancelled \<lparr>item_id = 0, dueTime = 1 :: int, payload = Some (1 :: nat), isCancelled = False\<rparr> \<and>
   item_id \<lparr>item_id = 0, dueTime = 1 :: int, payload = Some (1 :: nat), isCancelled = False\<rparr> \<noteq> 2"
proof -
  have g: "getNext numberComparer threeItems =
     (Some \<lparr>item_id = 0, dueTime = 1, payload = Some 1, isCancelled = False\<rparr>, threeItems)"
    by (simp add: threeItems_eq getNext_def getNext_loop.simps peek_def isHigherPriority_def
        compareTo_def numberComparer_def)
  have c: "cancelled_in 2 threeItems" by (simp add: threeItems_eq cancelled_in_def)
  have d: "distinct (map item_id (queue threeItems))" by (simp add: threeItems_eq)
  show ?thesis
    using C4_cancelled_items_never_run [of numberComparer cancelling threeItems 5 2]
      threeItems_start keeps_cancelled_cancelling [of 2] number_total_order g c d
    by simp
qed

text \<open>
  Claim C5. On a scheduler with clock 0, \<^verbatim>\<open>schedulePeriodicWithState\<close> with state 0, period
  3 and the action that adds one, followed by \<^verbatim>\<open>advanceTo(10)\<close>, calls the action at the
  times 3, 6 and 9, where it returns the states 1, 2 and 3; a tick for time 12 is left in
  the queue, and the call returns with the clock at 10. In general a tick of a chain that
  is not cancelled enqueues the next tick at its own due time plus the period, with the
  state the action returned.
\<close>

theorem C5_periodic_scenario:
  "advanceTo numberComparer (tick numberAdd 3 increment) 10
     (schedulePeriodicWithState numberAdd 0 3
        (VirtualTimeScheduler 0 \<lparr>chainCancelled = False, calls = []\<rparr>))
   = Some (Inr
       (\<lparr>clock = 10, isEnabled = False,
         queue = [\<lparr>item_id = 3, dueTime = 12, payload = (3, 12), isCancelled = False\<rparr>],
         nextSequence = 4,
         world = \<lparr>chainCancelled = False, calls = [(3, 1), (6, 2), (9, 3)]\<rparr>\<rparr>,
        [(\<lparr>item_id = 0, dueTime = 3, payload = (0, 3), isCancelled = False\<rparr>, 3),
         (\<lparr>item_id = 1, dueTime = 6, payload = (1, 6), isCancelled = False\<rparr>, 6),
         (\<lparr>item_id = 2, dueTime = 9, payload = (2, 9), isCancelled = False\<rparr>, 9)])) \<and>
   queue (tick add period action (state, due) (s\<lparr>world := w\<lparr>chainCancelled := False\<rparr>\<rparr>)) =
     queue s @ [\<lparr>item_id = nextSequence s, dueTime = add due period,
                 payload = (action state, add due period), isCancelled = False\<rparr>]"
proof -
  have "advanceTo numberComparer (tick numberAdd 3 increment) 10
     (schedulePeriodicWithState numberAdd 0 3
        (VirtualTimeScheduler 0 \<lparr>chainCancelled = False, calls = []\<rparr>))
   = Some (Inr
       (\<lparr>clock = 10, isEnabled = False,
         queue = [\<lparr>item_id = 3, dueTime = 12, payload = (3, 12), isCancelled = False\<rparr>],
         nextSequence = 4,
         world = \<lparr>chainCancelled = False, calls = [(3, 1), (6, 2), (9, 3)]\<rparr>\<rparr>,
        [(\<lparr>item_id = 0, dueTime = 3, payload = (0, 3), isCancelled = False\<rparr>, 3),
         (\<lparr>item_id = 1, dueTime = 6, payload = (1, 6), isCancelled = False\<rparr>, 6),
         (\<lparr>item_id = 2, dueTime = 9, payload = (2, 9), isCancelled = False\<rparr>, 9)]))"
    by code_simp
  then show ?thesis by (simp add: tick_next)
qed

text \<open>
  Claim C6. \<^verbatim>\<open>sleep(time)\<close> computes \<open>dt = add clock time\<close>. It throws the
  out-of-range error exactly when \<open>dt\<close> is not strictly later than the clock, and the
  state is then as it was; with numbers as time values this is the case for every
  \<open>time \<le> 0\<close>. Otherwise the clock becomes \<open>dt\<close> and no other field changes: the queue
  is the same and nothing was invoked.
\<close>

theorem C6_sleep:
  "(sleep add comparer time s = Inl (ArgumentOutOfRange, s)
      \<longleftrightarrow> \<not> comparer (clock s) (add (clock s) time) < 0) \<and>
   (\<forall>e. sleep add comparer time s = Inl e
      \<longrightarrow> e = (ArgumentOutOfRange, s) \<and> \<not> comparer (clock s) (add (clock s) time) < 0) \<and>
   (comparer (clock s) (add (clock s) time) < 0
      \<longrightarrow> sleep add comparer time s = Inr (s\<lparr>clock := add (clock s) time\<rparr>)) \<and>
   (\<forall>s'. sleep add comparer time s = Inr s'
      \<longrightarrow> clock s' = add (clock s) time \<and> queue s' = queue s \<and> isEnabled s' = isEnabled s
          \<and> nextSequence s' = nextSequence s \<and> world s' = world s) \<and>
   (d \<le> 0 \<longrightarrow> sleep numberAdd numberComparer d z = Inl (ArgumentOutOfRange, z))"
  by (auto simp: sleep_def Let_def numberAdd_def numberComparer_def)

theorem C6_sleep_witness:
  "sleep numberAdd numberComparer 4
       (\<lparr>clock = 3, isEnabled = False,
         queue = [\<lparr>item_id = 0, dueTime = 5, payload = (), isCancelled = False\<rparr>],
         nextSequence = 1, world = ()\<rparr>)
     = Inr \<lparr>clock = 7, isEnabled = False,
         queue = [\<lparr>item_id = 0, dueTime = 5, payload = (), isCancelled = False\<rparr>],
         nextSequence = 1, world = ()\<rparr> \<and>
   sleep numberAdd numberComparer (- 2) (VirtualTimeScheduler 3 () :: (int, unit, unit) scheduler)
     = Inl (ArgumentOutOfRange, VirtualTimeScheduler 3 ()) \<and>
   sleep numberAdd numberComparer 0 (VirtualTimeScheduler 3 () :: (int, unit, unit) scheduler)
     = Inl (ArgumentOutOfRange, VirtualTimeScheduler 3 ())"
  using C6_sleep [of numberAdd numberComparer 4
      "\<lparr>clock = 3, isEnabled = False,
         queue = [\<lparr>item_id = 0, dueTime = 5, payload = (), isCancelled = False\<rparr>],
         nextSequence = 1, world = ()\<rparr>" "- 2"
      "VirtualTimeScheduler 3 () :: (int, unit, unit) scheduler"]
    C6_sleep [of numberAdd numberComparer 4
      "\<lparr>clock = 3, isEnabled = False,
         queue = [\<lparr>item_id = 0, dueTime = 5, payload = (), isCancelled = False\<rparr>],
         nextSequence = 1, world = ()\<rparr>" 0
      "VirtualTimeScheduler 3 () :: (int, unit, unit) scheduler"]
  by (simp add: numberAdd_def numberComparer_def)

text \<open>
  Claim C7. \<^verbatim>\<open>advanceBy(time)\<close> computes \<open>dt = add clock time\<close>. It throws the
  out-of-range error exactly when \<open>dt\<close> is earlier than the clock, with the state as it
  was; it returns at once, with nothing changed, when \<open>dt\<close> equals the clock; and in every
  case it does what \<^verbatim>\<open>advanceTo(dt)\<close> does.
\<close>

theorem C7_advanceBy:
  "advanceBy add comparer act time s = advanceTo comparer act (add (clock s) time) s \<and>
   ((\<exists>e. advanceBy add comparer act time s = Some (Inl e))
      \<longleftrightarrow> comparer (clock s) (add (clock s) time) > 0) \<and>
   (comparer (clock s) (add (clock s) time) > 0
      \<longrightarrow> advanceBy add comparer act time s = Some (Inl (ArgumentOutOfRange, s))) \<and>
   (comparer (clock s) (add (clock s) time) = 0
      \<longrightarrow> advanceBy add comparer act time s = Some (Inr (s, [])))"
  by (auto simp: advanceBy_def advanceTo_def Let_def bind_eq_Some_conv split: prod.splits)

theorem C7_advanceBy_witness:
  "advanceBy numberAdd numberComparer (\<lambda>p s. s) (- 1)
       (VirtualTimeScheduler 3 () :: (int, unit, unit) scheduler)
     = Some (Inl (ArgumentOutOfRange, VirtualTimeScheduler 3 ())) \<and>
   advanceBy numberAdd numberComparer (\<lambda>p s. s) 0
       (VirtualTimeScheduler 3 () :: (int, unit, unit) scheduler)
     = Some (Inr (VirtualTimeScheduler 3 (), []))"
  using C7_advanceBy [of numberAdd numberComparer "\<lambda>p s. s" "- 1"
      "VirtualTimeScheduler 3 () :: (int, unit, unit) scheduler"]
    C7_advanceBy [of numberAdd numberComparer "\<lambda>p s. s" 0
      "VirtualTimeScheduler 3 () :: (int, unit, unit) scheduler"]
  by (simp add: numberAdd_def numberComparer_def VirtualTimeScheduler_def advanceTo_def)

text \<open>
  Claim C8, as amended. For a comparer that is a total order, no operation of the
  scheduler returns with the clock earlier than it found it. \<^verbatim>\<open>stop\<close> and the scheduling
  calls leave the clock as it is; \<^verbatim>\<open>sleep\<close> moves it strictly forward or throws;
  \<^verbatim>\<open>advanceTo\<close> and \<^verbatim>\<open>advanceBy\<close>, whatever the actions do, return with a clock that is not
  earlier than the one at the call, and throw with the clock unchanged; \<^verbatim>\<open>start\<close> does so
  when no action moves the clock backward. Within a run loop whose actions do not move
  the clock backward, the clocks that the invoked actions find never decrease and are not
  earlier than the clock at the call. When no action moves the clock past the target of
  \<^verbatim>\<open>advanceTo\<close>, the loop of \<^verbatim>\<open>advanceTo\<close> ends with the clock at or before the target, so
  that the last assignment, of the target to the clock, does not move the clock backward;
  when moreover no action moves the clock backward, no invoked action has found a clock
  later than the clock on return.
\<close>

theorem C8_clock_never_moves_backward:
  assumes "total_order_comparer comparer"
  shows
  "clock (stop s) = clock s \<and>
   clock (snd (scheduleAbsoluteWithState p d s)) = clock s \<and>
   clock (snd (scheduleRelativeWithState add p r s)) = clock s \<and>
   clock (snd (scheduleNow p s)) = clock s \<and>
   clock (snd (scheduleRelative add r p s)) = clock s \<and>
   clock (snd (scheduleAbsolute d p s)) = clock s \<and>
   clock (schedulePeriodicWithState add a r z) = clock z \<and>
   (\<forall>e s'. sleep add comparer r s = Inl (e, s') \<longrightarrow> clock s' = clock s) \<and>
   (\<forall>s'. sleep add comparer r s = Inr s' \<longrightarrow> comparer (clock s) (clock s') < 0) \<and>
   (\<forall>e s'. advanceTo comparer act t s = Some (Inl (e, s')) \<longrightarrow> clock s' = clock s) \<and>
   (\<forall>s' tr. advanceTo comparer act t s = Some (Inr (s', tr))
      \<longrightarrow> comparer (clock s) (clock s') \<le> 0) \<and>
   (\<forall>e s'. advanceBy add comparer act r s = Some (Inl (e, s')) \<longrightarrow> clock s' = clock s) \<and>
   (\<forall>s' tr. advanceBy add comparer act r s = Some (Inr (s', tr))
      \<longrightarrow> comparer (clock s) (clock s') \<le> 0) \<and>
   (never_rewinds comparer act \<longrightarrow>
      (\<forall>s' tr. start comparer act s = Some (s', tr) \<longrightarrow>
         comparer (clock s) (clock s') \<le> 0 \<and> clocks_ascend comparer tr \<and>
         (\<forall>(si, c) \<in> set tr. comparer (clock s) c \<le> 0 \<and> comparer c (clock s') \<le> 0)) \<and>
      (\<forall>s' tr. advanceTo comparer act t s = Some (Inr (s', tr)) \<longrightarrow>
         clocks_ascend comparer tr \<and> (\<forall>(si, c) \<in> set tr. comparer (clock s) c \<le> 0))) \<and>
   (stays_within comparer t act \<longrightarrow>
      (\<forall>s1 tr. \<not> isEnabled s \<and> comparer (clock s) t < 0 \<and>
           advanceTo_loop comparer act t (s\<lparr>isEnabled := True\<rparr>) = Some (s1, tr)
         \<longrightarrow> comparer (clock s1) t \<le> 0)) \<and>
   (never_rewinds comparer act \<and> stays_within comparer t act \<longrightarrow>
      (\<forall>s' tr. advanceTo comparer act t s = Some (Inr (s', tr)) \<longrightarrow>
         (\<forall>(si, c) \<in> set tr. comparer c (clock s') \<le> 0)))"
proof -
  note t = assms
  have sched: "clock (stop s) = clock s"
    "clock (snd (scheduleAbsoluteWithState p d s)) = clock s"
    "clock (snd (scheduleRelativeWithState add p r s)) = clock s"
    "clock (snd (scheduleNow p s)) = clock s"
    "clock (snd (scheduleRelative add r p s)) = clock s"
    "clock (snd (scheduleAbsolute d p s)) = clock s"
    "clock (schedulePeriodicWithState add a r z) = clock z"
    by (simp_all add: stop_def scheduleAbsoluteWithState_def scheduleRelativeWithState_def
        scheduleNow_def scheduleRelative_def scheduleAbsolute_def
        schedulePeriodicWithState_def Let_def)
  have sl: "\<forall>e s'. sleep add comparer r s = Inl (e, s') \<longrightarrow> clock s' = clock s"
    "\<forall>s'. sleep add comparer r s = Inr s' \<longrightarrow> comparer (clock s) (clock s') < 0"
    by (auto simp: sleep_def Let_def split: if_splits)
  have atl: "clock s' = clock s" if "advanceTo comparer act t s = Some (Inl (e, s'))"
    for e s' t
    using that by (auto simp: advanceTo_def Let_def bind_eq_Some_conv split: if_splits)
  have atr: "comparer (clock s) (clock s') \<le> 0"
    if "advanceTo comparer act t s = Some (Inr (s', tr))" for s' tr t
    using that
  proof (cases rule: advanceTo_Inr_cases)
    case noop
    then show ?thesis using comparer_refl [OF t] by simp
  next
    case (ran s1)
    then show ?thesis by simp
  qed
  have ab: "advanceBy add comparer act r s = advanceTo comparer act (add (clock s) r) s"
    by (auto simp: advanceBy_def advanceTo_def Let_def)
  have st: "comparer (clock s) (clock s') \<le> 0 \<and> clocks_ascend comparer tr \<and>
         (\<forall>(si, c) \<in> set tr. comparer (clock s) c \<le> 0 \<and> comparer c (clock s') \<le> 0)"
    if n: "never_rewinds comparer act" and r: "start comparer act s = Some (s', tr)" for s' tr
  proof (cases "isEnabled s")
    case True
    then show ?thesis using r comparer_refl [OF t] by (simp add: start_def clocks_ascend_def)
  next
    case False
    then have "start_loop comparer act (s\<lparr>isEnabled := True\<rparr>) = Some (s', tr)"
      using r by (simp add: start_def)
    then have "comparer (clock (s\<lparr>isEnabled := True\<rparr>)) (clock s') \<le> 0 \<and>
        (\<forall>(si, c) \<in> set tr. comparer (clock (s\<lparr>isEnabled := True\<rparr>)) c \<le> 0 \<and>
           comparer c (clock s') \<le> 0) \<and>
        clocks_ascend comparer tr"
      by (rule start_loop_clock [OF _ t n])
    then show ?thesis by simp
  qed
  have at1: "clocks_ascend comparer tr \<and> (\<forall>(si, c) \<in> set tr. comparer (clock s) c \<le> 0)"
    if n: "never_rewinds comparer act" and r: "advanceTo comparer act t s = Some (Inr (s', tr))"
    for s' tr
    using r
  proof (cases rule: advanceTo_Inr_cases)
    case noop
    then show ?thesis by (simp add: clocks_ascend_def)
  next
    case (ran s1)
    show ?thesis using advanceTo_loop_clock [OF ran(3) t n] by auto
  qed
  have at0: "comparer (clock s1) t \<le> 0"
    if w: "stays_within comparer t act" and lt: "comparer (clock s) t < 0"
      and r: "advanceTo_loop comparer act t (s\<lparr>isEnabled := True\<rparr>) = Some (s1, tr)"
    for s1 tr
    using advanceTo_loop_bound [OF r w] lt by simp
  have at2: "\<forall>(si, c) \<in> set tr. comparer c (clock s') \<le> 0"
    if n: "never_rewinds comparer act" and w: "stays_within comparer t act"
      and r: "advanceTo comparer act t s = Some (Inr (s', tr))"
    for s' tr
    using r
  proof (cases rule: advanceTo_Inr_cases)
    case noop
    then show ?thesis by simp
  next
    case (ran s1)
    have b: "comparer (clock s1) t \<le> 0"
      using advanceTo_loop_bound [OF ran(3) w] ran(2) by simp
    have "\<forall>(si, c) \<in> set tr. comparer c (clock s1) \<le> 0"
      using advanceTo_loop_clock [OF ran(3) t n] by auto
    then have "\<forall>(si, c) \<in> set tr. comparer c t \<le> 0"
      using comparer_trans [OF t _ b] by auto
    then show ?thesis using ran(4) by simp
  qed
  have c10: "\<forall>e s'. advanceTo comparer act t s = Some (Inl (e, s')) \<longrightarrow> clock s' = clock s"
    using atl by blast
  have c11: "\<forall>s' tr. advanceTo comparer act t s = Some (Inr (s', tr))
      \<longrightarrow> comparer (clock s) (clock s') \<le> 0"
    using atr by blast
  have c12: "\<forall>e s'. advanceBy add comparer act r s = Some (Inl (e, s')) \<longrightarrow> clock s' = clock s"
    unfolding ab using atl by blast
  have c13: "\<forall>s' tr. advanceBy add comparer act r s = Some (Inr (s', tr))
      \<longrightarrow> comparer (clock s) (clock s') \<le> 0"
    unfolding ab using atr by blast
  have c14: "never_rewinds comparer act \<longrightarrow>
      (\<forall>s' tr. start comparer act s = Some (s', tr) \<longrightarrow>
         comparer (clock s) (clock s') \<le> 0 \<and> clocks_ascend comparer tr \<and>
         (\<forall>(si, c) \<in> set tr. comparer (clock s) c \<le> 0 \<and> comparer c (clock s') \<le> 0)) \<and>
      (\<forall>s' tr. advanceTo comparer act t s = Some (Inr (s', tr)) \<longrightarrow>
         clocks_ascend comparer tr \<and> (\<forall>(si, c) \<in> set tr. comparer (clock s) c \<le> 0))"
  proof (intro impI conjI allI)
    fix s' tr assume "never_rewinds comparer act" "start comparer act s = Some (s', tr)"
    then have k: "comparer (clock s) (clock s') \<le> 0 \<and> clocks_ascend comparer tr \<and>
         (\<forall>(si, c) \<in> set tr. comparer (clock s) c \<le> 0 \<and> comparer c (clock s') \<le> 0)"
      by (rule st)
    show "comparer (clock s) (clock s') \<le> 0" using k by simp
    show "clocks_ascend comparer tr" using k by simp
    show "\<forall>(si, c) \<in> set tr. comparer (clock s) c \<le> 0 \<and> comparer c (clock s') \<le> 0"
      using k by simp
  next
    fix s' tr
    assume "never_rewinds comparer act" "advanceTo comparer act t s = Some (Inr (s', tr))"
    then have k: "clocks_ascend comparer tr \<and> (\<forall>(si, c) \<in> set tr. comparer (clock s) c \<le> 0)"
      by (rule at1)
    show "clocks_ascend comparer tr" using k by simp
    show "\<forall>(si, c) \<in> set tr. comparer (clock s) c \<le> 0" using k by simp
  qed
  have c15: "stays_within comparer t act \<longrightarrow>
      (\<forall>s1 tr. \<not> isEnabled s \<and> comparer (clock s) t < 0 \<and>
           advanceTo_loop comparer act t (s\<lparr>isEnabled := True\<rparr>) = Some (s1, tr)
         \<longrightarrow> comparer (clock s1) t \<le> 0)"
  proof (intro impI allI)
    fix s1 tr
    assume w: "stays_within comparer t act"
      and h: "\<not> isEnabled s \<and> comparer (clock s) t < 0 \<and>
           advanceTo_loop comparer act t (s\<lparr>isEnabled := True\<rparr>) = Some (s1, tr)"
    have "comparer (clock s) t < 0"
      "advanceTo_loop comparer act t (s\<lparr>isEnabled := True\<rparr>) = Some (s1, tr)"
      using h by simp_all
    with w show "comparer (clock s1) t \<le> 0" by (rule at0)
  qed
  have c16: "never_rewinds comparer act \<and> stays_within comparer t act \<longrightarrow>
      (\<forall>s' tr. advanceTo comparer act t s = Some (Inr (s', tr)) \<longrightarrow>
         (\<forall>(si, c) \<in> set tr. comparer c (clock s') \<le> 0))"
  proof (intro impI allI)
    fix s' tr
    assume h: "never_rewinds comparer act \<and> stays_within comparer t act"
      and r: "advanceTo comparer act t s = Some (Inr (s', tr))"
    have "never_rewinds comparer act" "stays_within comparer t act" using h by simp_all
    then show "\<forall>(si, c) \<in> set tr. comparer c (clock s') \<le> 0" using r by (rule at2)
  qed
  show ?thesis
    by (intro conjI sched sl c10 c11 c12 c13 c14 c15 c16)
qed

theorem C8_clock_never_moves_backward_witness:
  "total_order_comparer numberComparer \<and>
   stays_within numberComparer 5
     (cancelling :: nat option \<Rightarrow> (int, nat option, unit) scheduler \<Rightarrow> _) \<and>
   never_rewinds numberComparer (cancelling :: nat option \<Rightarrow> (int, nat option, unit) scheduler \<Rightarrow> _) \<and>
   clock threeItems = 0 \<and> \<not> isEnabled threeItems \<and>
   start numberComparer cancelling threeItems =
     Some (\<lparr>clock = 1, isEnabled = False, queue = [], nextSequence = 3, world = ()\<rparr>,
           [(\<lparr>item_id = 0, dueTime = 1, payload = Some 1, isCancelled = False\<rparr>, 1)]) \<and>
   advanceTo_loop numberComparer cancelling 5 (threeItems\<lparr>isEnabled := True\<rparr>) =
     Some (\<lparr>clock = 1, isEnabled = False, queue = [], nextSequence = 3, world = ()\<rparr>,
           [(\<lparr>item_id = 0, dueTime = 1, payload = Some 1, isCancelled = False\<rparr>, 1)]) \<and>
   advanceTo numberComparer cancelling 5 threeItems =
     Some (Inr (\<lparr>clock = 5, isEnabled = False, queue = [], nextSequence = 3, world = ()\<rparr>,
           [(\<lparr>item_id = 0, dueTime = 1, payload = Some 1, isCancelled = False\<rparr>, 1)])) \<and>
   numberComparer 0 1 \<le> 0 \<and> numberComparer 1 5 \<le> 0 \<and> numberComparer 0 5 < 0"
proof -
  have k: "keeps_clock (cancelling :: nat option \<Rightarrow> (int, nat option, unit) scheduler \<Rightarrow> _)"
    by (rule keeps_clock_cancelling)
  have n: "never_rewinds numberComparer
      (cancelling :: nat option \<Rightarrow> (int, nat option, unit) scheduler \<Rightarrow> _)"
    using keeps_clock_never_rewinds [OF number_total_order k] .
  have w: "stays_within numberComparer 5
      (cancelling :: nat option \<Rightarrow> (int, nat option, unit) scheduler \<Rightarrow> _)"
    using keeps_clock_stays_within [OF k] .
  show ?thesis
    using C8_clock_never_moves_backward [OF number_total_order, of threeItems None 0 numberAdd 0 0
        "VirtualTimeScheduler 0 ()" cancelling 5]
      number_total_order n w threeItems_start threeItems_advanceTo threeItems_advanceTo_loop
    by (simp add: threeItems_eq numberComparer_def)
qed

text \<open>
  The claim as it stands puts no condition on the actions, and an action may call
  \<^verbatim>\<open>sleep\<close>, which moves the clock forward only. With the action that calls
  \<^verbatim>\<open>sleep(100)\<close>, \<^verbatim>\<open>advanceTo(5)\<close> on the example scheduler, whose clock is 0, invokes
  item 0 at clock 1, the action sleeps to 101, item 1 is invoked at clock 101 and the
  action sleeps to 201. The loop ends with the clock at 201, and the last assignment sets
  the clock to 5: within the call the clock moves backward, to a target that is earlier
  than the clock that an invoked action has found.
\<close>

theorem C8_counterexample:
  "clock threeItems = 0 \<and> \<not> isEnabled threeItems \<and>
   advanceTo_loop numberComparer sleeping 5 (threeItems\<lparr>isEnabled := True\<rparr>) =
     Some (\<lparr>clock = 201, isEnabled = False, queue = [], nextSequence = 3, world = ()\<rparr>,
           [(\<lparr>item_id = 0, dueTime = 1, payload = Some 1, isCancelled = False\<rparr>, 1),
            (\<lparr>item_id = 1, dueTime = 2, payload = None, isCancelled = False\<rparr>, 101)]) \<and>
   advanceTo numberComparer sleeping 5 threeItems =
     Some (Inr (\<lparr>clock = 5, isEnabled = False, queue = [], nextSequence = 3, world = ()\<rparr>,
           [(\<lparr>item_id = 0, dueTime = 1, payload = Some 1, isCancelled = False\<rparr>, 1),
            (\<lparr>item_id = 1, dueTime = 2, payload = None, isCancelled = False\<rparr>, 101)])) \<and>
   numberComparer 5 201 < 0 \<and> numberComparer 5 101 < 0"
  by code_simp

text \<open>
  Claim C9. \<^verbatim>\<open>advanceTo(t)\<close> throws the out-of-range error for every \<open>t\<close> earlier than
  the clock, also while a run loop is active (\<open>isEnabled\<close> true), and returns with nothing
  changed for \<open>t\<close> equal to the clock, whether a run loop is active or not: both checks
  come before the guard on \<open>isEnabled\<close>. The guard decides only for a target strictly
  later than the clock: while a run loop is active such a call returns at once and changes
  nothing.
\<close>

theorem C9_advanceTo_reentrant:
  "(comparer (clock s) t > 0
      \<longrightarrow> advanceTo comparer act t s = Some (Inl (ArgumentOutOfRange, s))) \<and>
   (isEnabled s \<and> comparer (clock s) t > 0
      \<longrightarrow> advanceTo comparer act t s = Some (Inl (ArgumentOutOfRange, s))) \<and>
   (comparer (clock s) t = 0 \<longrightarrow> advanceTo comparer act t s = Some (Inr (s, []))) \<and>
   (isEnabled s \<and> comparer (clock s) t < 0
      \<longrightarrow> advanceTo comparer act t s = Some (Inr (s, [])))"
  by (simp add: advanceTo_def Let_def)

theorem C9_advanceTo_reentrant_witness:
  "advanceTo numberComparer (\<lambda>p s. s) 3
       (\<lparr>clock = 5, isEnabled = True, queue = [], nextSequence = 0, world = ()\<rparr>
          :: (int, unit, unit) scheduler)
     = Some (Inl (ArgumentOutOfRange,
         \<lparr>clock = 5, isEnabled = True, queue = [], nextSequence = 0, world = ()\<rparr>)) \<and>
   advanceTo numberComparer (\<lambda>p s. s) 9
       (\<lparr>clock = 5, isEnabled = True,
         queue = [\<lparr>item_id = 0, dueTime = 7, payload = (), isCancelled = False\<rparr>],
         nextSequence = 1, world = ()\<rparr>)
     = Some (Inr (\<lparr>clock = 5, isEnabled = True,
         queue = [\<lparr>item_id = 0, dueTime = 7, payload = (), isCancelled = False\<rparr>],
         nextSequence = 1, world = ()\<rparr>, []))"
  using C9_advanceTo_reentrant [of numberComparer
      "\<lparr>clock = 5, isEnabled = True, queue = [], nextSequence = 0, world = ()\<rparr>
         :: (int, unit, unit) scheduler" 3 "\<lambda>p s. s"]
    C9_advanceTo_reentrant [of numberComparer
      "\<lparr>clock = 5, isEnabled = True,
         queue = [\<lparr>item_id = 0, dueTime = 7, payload = (), isCancelled = False\<rparr>],
         nextSequence = 1, world = ()\<rparr>" 9 "\<lambda>p s. s"]
  by (simp add: numberComparer_def)

text \<open>
  Claim C10, as amended. When \<^verbatim>\<open>start\<close> is called while no run loop is active and it
  returns, and no invoked action has called \<^verbatim>\<open>stop\<close>, then on return \<open>isEnabled\<close> is
  false and the queue is empty: every item has been dequeued, the cancelled ones too.
\<close>

theorem C10_start_drains:
  "\<not> isEnabled s \<Longrightarrow> never_stops act \<Longrightarrow> start comparer act s = Some (s', tr)
     \<Longrightarrow> \<not> isEnabled s' \<and> queue s' = []"
  using start_loop_drains [of comparer act "s\<lparr>isEnabled := True\<rparr>" s' tr]
  by (simp add: start_def)

theorem C10_start_drains_witness:
  "\<not> isEnabled threeItems \<and> never_stops (cancelling :: nat option \<Rightarrow> (int, nat option, unit) scheduler \<Rightarrow> _) \<and>
   length (queue threeItems) = 3 \<and>
   start numberComparer cancelling threeItems =
     Some (\<lparr>clock = 1, isEnabled = False, queue = [], nextSequence = 3, world = ()\<rparr>,
           [(\<lparr>item_id = 0, dueTime = 1, payload = Some 1, isCancelled = False\<rparr>, 1)]) \<and>
   \<not> isEnabled \<lparr>clock = 1 :: int, isEnabled = False, queue = [] :: (int, nat option) priority_queue,
       nextSequence = 3, world = ()\<rparr>"
  using C10_start_drains [OF _ never_stops_cancelling threeItems_start]
    never_stops_cancelling threeItems_start
  by (simp add: threeItems_eq)

text \<open>
  The claim as it was stated fails when \<^verbatim>\<open>start\<close> is called while a run loop is active:
  the call returns at once, no action runs, \<open>isEnabled\<close> is still true and the queue still
  holds its item.
\<close>

theorem C10_counterexample:
  "start numberComparer noAction busy = Some (busy, []) \<and> isEnabled busy \<and> queue busy \<noteq> []"
  by (simp add: start_def busy_def)

end
